theory Spec2Isabelle
  imports Complex_Main "HOL-Library.Multiset" "HOL-Library.List_Lexorder" "HOL-Library.Word"
begin

section \<open>Data model\<close>

text \<open>
  The engine lives in \<^verbatim>\<open>src/app/components/TradeWiz.tsx\<close>; an earlier variant of the same
  component is \<^verbatim>\<open>src/unnamed/part_000\<close>. Where the two differ, the definition taken from
  the variant carries the suffix \<open>_v0\<close>; its radix sorter has a name of its own,
  \<^verbatim>\<open>parallelRadixSort\<close>.

  A number of the source language is an IEEE double. The prices, the timestamps and the
  sort keys are modelled by the rationals and integers that such doubles are, and every
  operation that computes a key or a digit rounds as the double operation does (\<open>rd\<close>
  below). The key computation also rounds the price and the timestamp it reads: this
  changes nothing on a double, and lets a record that holds the decimal 64.07 stand for the
  double that the source language writes 64.07. Doubles that are not finite, overflow to
  them (magnitudes from \<open>2^1024\<close>) and the subnormal doubles (magnitudes below
  \<open>2^-1022\<close>) are outside the model. Clock readings and durations are rationals.

  A string of the source language is a sequence of 16-bit code units, and \<^verbatim>\<open><=\<close> orders
  strings lexicographically by code unit. The symbol of a transaction is modelled so; ids
  and display times, which the engine only carries along, are plain strings.
\<close>

datatype SortKey = Price | Symbol | Timestamp

record Transaction =
  tx_id :: string
  symbol :: "16 word list"
  price :: rat
  timestamp :: int
  displayTime :: string
  sortKey :: "int option"

text \<open>The code units of a literal whose characters have codes below 256.\<close>

definition units :: "string \<Rightarrow> 16 word list" where
  "units s = map (\<lambda>c. of_nat (of_char c)) s"

definition stockSymbols :: "16 word list list" where
  "stockSymbols =
     map units [''AAPL'', ''TSLA'', ''AMZN'', ''GOOGL'', ''MSFT'', ''NVDA'', ''META'',
                ''NFLX'', ''AMD'', ''INTC'']"

section \<open>Double arithmetic\<close>

text \<open>
  \<open>rd x\<close> is the double nearest to the rational \<open>x\<close>, ties going to the even mantissa:
  with \<open>2^e \<le> |x| < 2^(e+1)\<close> the doubles around \<open>x\<close> are the multiples of
  \<open>2^(e-52)\<close>. \<open>bits n\<close> is the length of the binary numeral of \<open>n\<close>.
\<close>

function bits :: "int \<Rightarrow> nat" where
  "bits n = (if n \<le> 0 then 0 else Suc (bits (n div 2)))"
  by pat_completeness auto
termination
  by (relation "measure nat") auto

declare bits.simps [simp del]

definition pow2 :: "int \<Rightarrow> rat" where
  "pow2 e = (if 0 \<le> e then 2 ^ nat e else 1 / 2 ^ nat (- e))"

definition expo :: "rat \<Rightarrow> int" where
  "expo x =
     (let (a, b) = quotient_of x;
          e0 = int (bits a) - int (bits b)
      in if x < pow2 e0 then e0 - 1 else e0)"

definition roundEven :: "rat \<Rightarrow> int" where
  "roundEven y =
     (let f = \<lfloor>y\<rfloor>; d = y - of_int f
      in if d < 1 / 2 then f else if 1 / 2 < d then f + 1 else if even f then f else f + 1)"

definition rd :: "rat \<Rightarrow> rat" where
  "rd x =
     (if x = 0 then 0
      else let u = pow2 (expo \<bar>x\<bar> - 52)
           in sgn x * of_int (roundEven (\<bar>x\<bar> / u)) * u)"

section \<open>Key encoder\<close>

text \<open>
  The reduction \<^verbatim>\<open>symbol.split('').reduce((acc, char) => acc * 256 + char.charCodeAt(0), 0)\<close>.
  The product by 256 of a double is exact, the sum is rounded; the double of an integer is
  an integer, which the floor reads off.
\<close>

definition symbolKey :: "16 word list \<Rightarrow> int" where
  "symbolKey s = foldl (\<lambda>acc char. \<lfloor>rd (of_int (acc * 256 + uint char))\<rfloor>) 0 s"

text \<open>
  The key computed for one item by the callback of \<^verbatim>\<open>preprocessForRadix\<close>; for a price,
  \<^verbatim>\<open>Math.floor(item.price * 100)\<close> with the product rounded to a double. The floor of
  the double of a timestamp is that double, an integer.
\<close>

definition encode :: "SortKey \<Rightarrow> Transaction \<Rightarrow> int" where
  "encode k item =
     (case k of
        Price \<Rightarrow> \<lfloor>rd (rd (price item) * 100)\<rfloor>
      | Symbol \<Rightarrow> symbolKey (symbol item)
      | Timestamp \<Rightarrow> \<lfloor>rd (of_int (timestamp item))\<rfloor>)"

definition preprocessForRadix :: "Transaction list \<Rightarrow> SortKey \<Rightarrow> Transaction list" where
  "preprocessForRadix data k = map (\<lambda>item. item\<lparr>sortKey := Some (encode k item)\<rparr>) data"

section \<open>Radix sorter\<close>

datatype error = TypeError

text \<open>
  \<^verbatim>\<open>maxVal.toString().length\<close>. Below \<open>10^21\<close> the string of an integer is its decimal
  numeral, \<open>digits10\<close> characters. From \<open>10^21\<close> on it is in exponent notation: the
  shortest digit string \<open>s\<close>, of \<open>k\<close> digits, for which \<open>s * 10^(n-k)\<close> rounds to the number,
  written as the first digit, a point and the other digits if there are any, \<^verbatim>\<open>e+\<close> and the
  numeral of \<open>n - 1\<close>. \<open>roundTrip v nd k\<close> looks for such an \<open>s\<close> of \<open>k\<close> digits for a number \<open>v\<close>
  of \<open>nd\<close> digits and gives \<open>n\<close>; seventeen digits always suffice. A negative number has one
  more character, the sign.
\<close>

function digits10 :: "int \<Rightarrow> nat" where
  "digits10 v = (if v < 10 then 1 else Suc (digits10 (v div 10)))"
  by pat_completeness auto
termination
  by (relation "measure nat") auto

declare digits10.simps [simp del]

definition roundTrip :: "int \<Rightarrow> nat \<Rightarrow> nat \<Rightarrow> nat option" where
  "roundTrip v nd k =
     (let p = 10 ^ (nd - k); s0 = v div p
      in if rd (of_int (s0 * p)) = of_int v then Some nd
         else if rd (of_int ((s0 + 1) * p)) = of_int v
         then Some (if s0 + 1 = 10 ^ k then Suc nd else nd)
         else None)"

fun shortestDigits :: "int \<Rightarrow> nat \<Rightarrow> nat list \<Rightarrow> nat \<times> nat" where
  "shortestDigits v nd [] = (17, nd)"
| "shortestDigits v nd (k # ks) =
     (case roundTrip v nd k of Some n \<Rightarrow> (k, n) | None \<Rightarrow> shortestDigits v nd ks)"

definition numeralLength :: "int \<Rightarrow> nat" where
  "numeralLength v =
     (if v < 10 ^ 21 then digits10 v
      else let (k, n) = shortestDigits v (digits10 v) [1..<17]
           in (if k = 1 then 1 else k + 1) + 2 + digits10 (int n - 1))"

definition toStringLength :: "int \<Rightarrow> nat" where
  "toStringLength v = (if v < 0 then Suc (numeralLength (- v)) else numeralLength v)"

text \<open>The remainder operator \<^verbatim>\<open>%\<close> truncates: its result has the sign of the dividend.\<close>

definition jsRem :: "int \<Rightarrow> int \<Rightarrow> int" where
  "jsRem a b = sgn a * (\<bar>a\<bar> mod \<bar>b\<bar>)"

text \<open>\<^verbatim>\<open>item.sortKey ?? 0\<close> (\<^verbatim>\<open>item.sortKey || 0\<close> in the variant: the same number).\<close>

definition keyOf :: "Transaction \<Rightarrow> int" where
  "keyOf item = (case sortKey item of Some v \<Rightarrow> v | None \<Rightarrow> 0)"

text \<open>
  \<^verbatim>\<open>Math.floor((item.sortKey ?? 0) / divisor) % 10\<close> with \<^verbatim>\<open>divisor = Math.pow(10, digit)\<close>:
  the power is the double nearest to \<open>10^digit\<close> (the power itself up to \<open>10^22\<close>), the
  quotient is rounded to a double, floor and remainder are exact.
\<close>

definition digitValue :: "nat \<Rightarrow> Transaction \<Rightarrow> int" where
  "digitValue digit item =
     (let divisor = rd (10 ^ digit)
      in jsRem \<lfloor>rd (of_int (keyOf item) / divisor)\<rfloor> 10)"

text \<open>
  The \<^verbatim>\<open>forEach\<close> that pushes every item on its bucket. \<^verbatim>\<open>buckets[digitValue]\<close> is
  \<^verbatim>\<open>undefined\<close> for an index that is not one of the buckets, and \<^verbatim>\<open>push\<close> on it throws.
\<close>

fun distribute :: "nat \<Rightarrow> Transaction list \<Rightarrow> Transaction list list
    \<Rightarrow> error + Transaction list list" where
  "distribute digit [] buckets = Inr buckets"
| "distribute digit (item # rest) buckets =
     (let dv = digitValue digit item
      in if 0 \<le> dv \<and> nat dv < length buckets
         then distribute digit rest (buckets[nat dv := buckets ! nat dv @ [item]])
         else Inl TypeError)"

text \<open>The loop \<^verbatim>\<open>for (let digit = 0; digit < maxDigits; digit++)\<close>, entered at \<open>digit\<close>.\<close>

function radixLoop :: "nat \<Rightarrow> nat \<Rightarrow> Transaction list \<Rightarrow> error + Transaction list" where
  "radixLoop digit maxDigits sortedArray =
     (if digit < maxDigits
      then (case distribute digit sortedArray (replicate 10 []) of
              Inl e \<Rightarrow> Inl e
            | Inr buckets \<Rightarrow> radixLoop (Suc digit) maxDigits (concat buckets))
      else Inr sortedArray)"
  by pat_completeness auto
termination
  by (relation "measure (\<lambda>(digit, maxDigits, _). maxDigits - digit)") auto

declare radixLoop.simps [simp del]

text \<open>
  A sorter returns \<^verbatim>\<open>{ sorted, time }\<close>, here the pair \<open>(sorted, time)\<close>. The two readings
  of \<^verbatim>\<open>performance.now()\<close> are the parameter \<open>clock = (startTime, endTime)\<close>. The preview
  handed to \<^verbatim>\<open>setPreprocessedData\<close> is display state that no sorter reads; it is left out.
\<close>

definition radixSort :: "rat \<times> rat \<Rightarrow> Transaction list \<Rightarrow> SortKey
    \<Rightarrow> error + Transaction list \<times> rat" where
  "radixSort clock arr k =
     (if length arr \<le> 1 then Inr (arr, 0)
      else
        let startTime = fst clock;
            preprocessed = preprocessForRadix arr k;
            keys = map keyOf preprocessed;
            maxVal = fold max (tl keys) (hd keys);
            maxDigits = toStringLength maxVal
        in case radixLoop 0 maxDigits preprocessed of
             Inl e \<Rightarrow> Inl e
           | Inr sortedArray \<Rightarrow> let endTime = snd clock in Inr (sortedArray, endTime - startTime))"

definition parallelRadixSort :: "rat \<times> rat \<Rightarrow> Transaction list \<Rightarrow> SortKey
    \<Rightarrow> error + Transaction list \<times> rat" where
  "parallelRadixSort clock arr k =
     (if length arr \<le> 1 then Inr (arr, 0)
      else
        let startTime = fst clock;
            preprocessed = preprocessForRadix arr k;
            keys = map keyOf preprocessed;
            maxVal = fold max (tl keys) (hd keys);
            maxDigits = toStringLength maxVal
        in case radixLoop 0 maxDigits preprocessed of
             Inl e \<Rightarrow> Inl e
           | Inr sortedArray \<Rightarrow> let endTime = snd clock in Inr (sortedArray, endTime - startTime))"

section \<open>Merge sorter\<close>

text \<open>\<^verbatim>\<open>leftVal <= rightVal\<close> on the field that \<^verbatim>\<open>sortKey\<close> selects.\<close>

definition fieldLe :: "SortKey \<Rightarrow> Transaction \<Rightarrow> Transaction \<Rightarrow> bool" where
  "fieldLe k l r =
     (case k of
        Price \<Rightarrow> price l \<le> price r
      | Symbol \<Rightarrow> symbol l \<le> symbol r
      | Timestamp \<Rightarrow> timestamp l \<le> timestamp r)"

text \<open>
  The index loop of \<^verbatim>\<open>merge\<close> followed by the two \<^verbatim>\<open>concat\<close>s, as recursion on what is
  left of \<open>left\<close> from \<open>i\<close> and of \<open>right\<close> from \<open>j\<close>.
\<close>

fun merge :: "SortKey \<Rightarrow> Transaction list \<Rightarrow> Transaction list \<Rightarrow> Transaction list" where
  "merge k [] right = right"
| "merge k left [] = left"
| "merge k (l # left) (r # right) =
     (if fieldLe k l r then l # merge k left (r # right) else r # merge k (l # left) right)"

function sortRec :: "SortKey \<Rightarrow> Transaction list \<Rightarrow> Transaction list" where
  "sortRec k array =
     (if length array \<le> 1 then array
      else
        let mid = length array div 2;
            left = sortRec k (take mid array);
            right = sortRec k (drop mid array)
        in merge k left right)"
  by pat_completeness auto
termination
  by (relation "measure (\<lambda>(_, array). length array)") auto

declare sortRec.simps [simp del]

text \<open>\<^verbatim>\<open>TradeWiz.tsx\<close> reports \<^verbatim>\<open>actualTime * 2.5\<close>; the variant reports the difference itself.\<close>

definition mergeSort :: "rat \<times> rat \<Rightarrow> Transaction list \<Rightarrow> SortKey \<Rightarrow> Transaction list \<times> rat" where
  "mergeSort clock arr k =
     (let startTime = fst clock;
          sorted' = sortRec k arr;
          endTime = snd clock;
          actualTime = endTime - startTime;
          demonstrationTime = actualTime * (5 / 2)
      in (sorted', demonstrationTime))"

definition mergeSort_v0 :: "rat \<times> rat \<Rightarrow> Transaction list \<Rightarrow> SortKey \<Rightarrow> Transaction list \<times> rat" where
  "mergeSort_v0 clock arr k =
     (let startTime = fst clock;
          sorted' = sortRec k arr;
          endTime = snd clock
      in (sorted', endTime - startTime))"

section \<open>Engine state, scheduler tick and reset\<close>

datatype SortMethod = Radix | Merge

record Stats =
  totalTransactions :: nat
  avgSortTime :: rat
  radixTime :: rat
  mergeTime :: rat

record PerformanceSample =
  time :: string
  sample_radixTime :: rat
  sample_mergeTime :: rat
  transactions :: nat
  sample_totalTransactions :: nat

text \<open>
  The component's state cells and the buffer reference. The display list \<^verbatim>\<open>transactions\<close>
  and the preview \<^verbatim>\<open>preprocessedData\<close> are written by the tick and read by the view only;
  they are left out. The interval timer exists exactly while \<open>isRunning\<close> holds: the effect
  installs it when \<open>isRunning\<close> is set and clears it otherwise, and \<^verbatim>\<open>resetData\<close> clears it
  itself.
\<close>

record Engine =
  isRunning :: bool
  sortedTransactions :: "Transaction list"
  sortMethod :: SortMethod
  sortBy :: SortKey
  transactionRate :: nat
  performanceData :: "PerformanceSample list"
  currentStats :: Stats
  transactionBuffer :: "Transaction list"

definition zeroStats :: Stats where
  "zeroStats = \<lparr>totalTransactions = 0, avgSortTime = 0, radixTime = 0, mergeTime = 0\<rparr>"

definition initialEngine :: Engine where
  "initialEngine =
     \<lparr>isRunning = False, sortedTransactions = [], sortMethod = Radix, sortBy = Price,
      transactionRate = 1000, performanceData = [], currentStats = zeroStats,
      transactionBuffer = []\<rparr>"

text \<open>
  What one tick reads from outside the state: the results of the successive calls of
  \<^verbatim>\<open>generateTransaction\<close>, the clock readings around the two sorts, and the time label.
\<close>

record TickInput =
  generated :: "nat \<Rightarrow> Transaction"
  radixClock :: "rat \<times> rat"
  mergeClock :: "rat \<times> rat"
  now :: string

text \<open>\<^verbatim>\<open>xs.slice(-n)\<close> for a positive \<open>n\<close>: the last \<open>n\<close> elements, all of them if there are fewer.\<close>

definition sliceLast :: "nat \<Rightarrow> 'a list \<Rightarrow> 'a list" where
  "sliceLast n xs = drop (length xs - n) xs"

text \<open>
  \<^verbatim>\<open>sortTransactions\<close> returns the list of the selected method; the two times are what its
  queued update writes into \<^verbatim>\<open>radixTime\<close> and \<^verbatim>\<open>mergeTime\<close>.
\<close>

definition sortTransactions :: "Engine \<Rightarrow> TickInput \<Rightarrow> Transaction list
    \<Rightarrow> error + Transaction list \<times> rat \<times> rat" where
  "sortTransactions s inp data =
     (if sortMethod s = Radix
      then (case radixSort (radixClock inp) data (sortBy s) of
              Inl e \<Rightarrow> Inl e
            | Inr radixResult \<Rightarrow>
                let mergeResult = mergeSort (mergeClock inp) data (sortBy s)
                in Inr (fst radixResult, snd radixResult, snd mergeResult))
      else
        let mergeResult = mergeSort (mergeClock inp) data (sortBy s)
        in (case radixSort (radixClock inp) data (sortBy s) of
              Inl e \<Rightarrow> Inl e
            | Inr radixResult \<Rightarrow> Inr (fst mergeResult, snd radixResult, snd mergeResult)))"

definition sortTransactions_v0 :: "Engine \<Rightarrow> TickInput \<Rightarrow> Transaction list
    \<Rightarrow> error + Transaction list \<times> rat \<times> rat" where
  "sortTransactions_v0 s inp data =
     (if sortMethod s = Radix
      then (case parallelRadixSort (radixClock inp) data (sortBy s) of
              Inl e \<Rightarrow> Inl e
            | Inr radixResult \<Rightarrow>
                let mergeResult = mergeSort_v0 (mergeClock inp) data (sortBy s)
                in Inr (fst radixResult, snd radixResult, snd mergeResult))
      else
        let mergeResult = mergeSort_v0 (mergeClock inp) data (sortBy s)
        in (case parallelRadixSort (radixClock inp) data (sortBy s) of
              Inl e \<Rightarrow> Inl e
            | Inr radixResult \<Rightarrow> Inr (fst mergeResult, snd radixResult, snd mergeResult)))"

text \<open>The first statements of the interval callback: the batch is appended to the buffer.\<close>

definition appendBatch :: "TickInput \<Rightarrow> Engine \<Rightarrow> Transaction list" where
  "appendBatch inp s =
     (let batchSize = transactionRate s div 10;
          newTransactions = map (generated inp) [0..<batchSize]
      in transactionBuffer s @ newTransactions)"

text \<open>
  The interval callback of \<^verbatim>\<open>TradeWiz.tsx\<close>, as one transition between rendered states.
  The queued updates are applied in the order of their calls: first the one of
  \<^verbatim>\<open>sortTransactions\<close> (giving \<open>prev\<close>), then the one of the callback. The name
  \<^verbatim>\<open>currentStats\<close> inside that second update is the callback's closure, the statistics as
  rendered before this tick: the effect is re-run, and the callback re-created, whenever
  \<^verbatim>\<open>radixTime\<close> or \<^verbatim>\<open>mergeTime\<close> change.
\<close>

definition tick :: "TickInput \<Rightarrow> Engine \<Rightarrow> error + Engine" where
  "tick inp s =
     (let batchSize = transactionRate s div 10;
          buffer = appendBatch inp s
      in if length buffer \<ge> 500
         then (case sortTransactions s inp buffer of
                 Inl e \<Rightarrow> Inl e
               | Inr (sorted', rTime, mTime) \<Rightarrow>
                   let bufferLength = length buffer;
                       closure = currentStats s;
                       prev = (currentStats s)\<lparr>radixTime := rTime, mergeTime := mTime\<rparr>;
                       newStats = prev
                         \<lparr>totalTransactions := totalTransactions prev + bufferLength,
                          avgSortTime := (radixTime closure + mergeTime closure) / 2\<rparr>;
                       sample =
                         \<lparr>time = now inp,
                          sample_radixTime = radixTime closure,
                          sample_mergeTime = mergeTime closure,
                          transactions = bufferLength,
                          sample_totalTransactions = totalTransactions newStats\<rparr>
                   in Inr (s\<lparr>sortedTransactions := sliceLast 500 sorted',
                             performanceData := sliceLast 20 (performanceData s) @ [sample],
                             currentStats := newStats,
                             transactionBuffer := []\<rparr>))
         else Inr (s\<lparr>currentStats := (currentStats s)
                         \<lparr>totalTransactions := totalTransactions (currentStats s) + batchSize\<rparr>,
                       transactionBuffer := buffer\<rparr>))"

text \<open>
  The interval callback of the variant: the threshold is 100 and the second update reads
  \<open>prev\<close>, the statistics after the update of \<^verbatim>\<open>sortTransactions\<close>.
\<close>

definition tick_v0 :: "TickInput \<Rightarrow> Engine \<Rightarrow> error + Engine" where
  "tick_v0 inp s =
     (let batchSize = transactionRate s div 10;
          buffer = appendBatch inp s
      in if length buffer \<ge> 100
         then (case sortTransactions_v0 s inp buffer of
                 Inl e \<Rightarrow> Inl e
               | Inr (sorted', rTime, mTime) \<Rightarrow>
                   let bufferLength = length buffer;
                       prev = (currentStats s)\<lparr>radixTime := rTime, mergeTime := mTime\<rparr>;
                       newStats = prev
                         \<lparr>totalTransactions := totalTransactions prev + bufferLength,
                          avgSortTime := (radixTime prev + mergeTime prev) / 2\<rparr>;
                       sample =
                         \<lparr>time = now inp,
                          sample_radixTime = radixTime prev,
                          sample_mergeTime = mergeTime prev,
                          transactions = bufferLength,
                          sample_totalTransactions = totalTransactions newStats\<rparr>
                   in Inr (s\<lparr>sortedTransactions := sliceLast 500 sorted',
                             performanceData := sliceLast 20 (performanceData s) @ [sample],
                             currentStats := newStats,
                             transactionBuffer := []\<rparr>))
         else Inr (s\<lparr>currentStats := (currentStats s)
                         \<lparr>totalTransactions := totalTransactions (currentStats s) + batchSize\<rparr>,
                       transactionBuffer := buffer\<rparr>))"

text \<open>The timer fires only while the simulation runs.\<close>

definition onInterval :: "TickInput \<Rightarrow> Engine \<Rightarrow> (error + Engine) option" where
  "onInterval inp s = (if isRunning s then Some (tick inp s) else None)"

definition toggleSimulation :: "Engine \<Rightarrow> Engine" where
  "toggleSimulation s = s\<lparr>isRunning := \<not> isRunning s\<rparr>"

definition resetData :: "Engine \<Rightarrow> Engine" where
  "resetData s =
     s\<lparr>isRunning := False,
       sortedTransactions := [],
       performanceData := [],
       currentStats := \<lparr>totalTransactions = 0, avgSortTime = 0, radixTime = 0, mergeTime = 0\<rparr>,
       transactionBuffer := []\<rparr>"

text \<open>
  The states the component can be in: the initial one, and what the commands of the control
  panel and the timer make of a reachable one. A tick that throws leaves the batch in the
  buffer and nothing else changed.
\<close>

inductive reachable :: "Engine \<Rightarrow> bool" where
  r_init: "reachable initialEngine"
| r_tick: "reachable s \<Longrightarrow> onInterval inp s = Some (Inr s') \<Longrightarrow> reachable s'"
| r_throw: "reachable s \<Longrightarrow> onInterval inp s = Some (Inl e)
    \<Longrightarrow> reachable (s\<lparr>transactionBuffer := appendBatch inp s\<rparr>)"
| r_toggle: "reachable s \<Longrightarrow> reachable (toggleSimulation s)"
| r_reset: "reachable s \<Longrightarrow> reachable (resetData s)"
| r_method: "reachable s \<Longrightarrow> reachable (s\<lparr>sortMethod := m\<rparr>)"
| r_sortBy: "reachable s \<Longrightarrow> reachable (s\<lparr>sortBy := k\<rparr>)"
| r_rate: "reachable s \<Longrightarrow> reachable (s\<lparr>transactionRate := rate\<rparr>)"

section \<open>Notions used to state the properties\<close>

text \<open>The fields of a transaction other than the derived \<open>sortKey\<close>.\<close>

definition core :: "Transaction \<Rightarrow> string \<times> 16 word list \<times> rat \<times> int \<times> string" where
  "core t = (tx_id t, symbol t, price t, timestamp t, displayTime t)"

text \<open>
  One bucket pass seen from outside: the items whose digit is 0, then those whose digit is 1,
  and so on, each group in the order it had. \<open>digitOf\<close> is the digit of a key that is not
  negative.
\<close>

definition collect :: "('a \<Rightarrow> nat) \<Rightarrow> nat \<Rightarrow> 'a list \<Rightarrow> 'a list" where
  "collect f n xs = concat (map (\<lambda>i. filter (\<lambda>x. f x = i) xs) [0..<n])"

definition digitOf :: "nat \<Rightarrow> Transaction \<Rightarrow> nat" where
  "digitOf d x = nat (\<lfloor>rd (of_int (keyOf x) / rd (10 ^ d))\<rfloor> mod 10)"

text \<open>The number that a symbol is the base-256 numeral of, computed without rounding.\<close>

definition symbolValue :: "16 word list \<Rightarrow> int" where
  "symbolValue s = foldl (\<lambda>acc char. acc * 256 + uint char) 0 s"

text \<open>Transactions as \<^verbatim>\<open>generateTransaction\<close> builds them, without a \<open>sortKey\<close>.\<close>

definition trade :: "string \<Rightarrow> string \<Rightarrow> rat \<Rightarrow> int \<Rightarrow> Transaction" where
  "trade i s p t =
     \<lparr>tx_id = i, symbol = units s, price = p, timestamp = t, displayTime = ''10:00:00'',
      sortKey = None\<rparr>"

text \<open>The batch of the specification's scenario: prices 100.00, 50.00, 100.00.\<close>

definition scenarioBatch :: "Transaction list" where
  "scenarioBatch =
     [trade ''a'' ''AAPL'' 100 3, trade ''b'' ''AMD'' 50 1, trade ''c'' ''TSLA'' 100 2]"



text \<open>Two tickers of different lengths.\<close>

definition mixedSymbols :: "Transaction list" where
  "mixedSymbols = [trade ''a'' ''AAPL'' 100 3, trade ''b'' ''AMD'' 50 1]"

text \<open>
  Two timestamps of the size that \<^verbatim>\<open>generateTransaction\<close> produces (both are doubles), and
  the two prices that the source language writes 64.07 and 64.06.
\<close>

definition generatedTimestamps :: "Transaction list" where
  "generatedTimestamps =
     [trade ''p0'' ''AAPL'' 100 1793664184100357888, trade ''p1'' ''AAPL'' 100 1793664184100358400]"

definition roundedPrices :: "Transaction list" where
  "roundedPrices =
     [trade ''q0'' ''AAPL'' (rd (6407 / 100)) 1, trade ''q1'' ''AAPL'' (rd (6406 / 100)) 2]"

text \<open>
  A running engine at 5000 transactions per second, so that every tick brings a batch of 500
  and flushes; one at the initial rate of 1000, whose ticks bring 100; and what a tick reads
  from outside: generated trades at price 100.00, and clock readings 10 and 13 around the
  radix sort, 13 and 15 around the merge sort.
\<close>

definition busyEngine :: Engine where
  "busyEngine = initialEngine\<lparr>isRunning := True, transactionRate := 5000\<rparr>"

definition busyInput :: TickInput where
  "busyInput =
     \<lparr>generated = (\<lambda>i. trade ''t'' ''AAPL'' 100 (int i)),
      radixClock = (10, 13), mergeClock = (13, 15), now = ''10:00:01''\<rparr>"

definition calmEngine :: Engine where
  "calmEngine = initialEngine\<lparr>isRunning := True\<rparr>"

text \<open>\<open>n\<close> firings of the timer, one after the other, with the same outside readings.\<close>

fun ticks :: "nat \<Rightarrow> TickInput \<Rightarrow> Engine \<Rightarrow> error + Engine" where
  "ticks 0 inp s = Inr s"
| "ticks (Suc n) inp s =
     (case onInterval inp s of
        None \<Rightarrow> Inr s
      | Some (Inl e) \<Rightarrow> Inl e
      | Some (Inr s') \<Rightarrow> ticks n inp s')"

section \<open>Rounding to a double\<close>

lemma bits_bounds: "0 < n \<Longrightarrow> 2 ^ (bits n - 1) \<le> n \<and> n < 2 ^ bits n"
proof (induction n rule: bits.induct)
  case (1 n)
  show ?case
  proof (cases "n div 2 = 0")
    case True
    then have n: "n = 1" using "1.prems" by presburger
    have "bits (1 div 2) = 0" by (simp add: bits.simps [of 0])
    then have "bits 1 = 1" by (simp add: bits.simps [of 1])
    then show ?thesis using n by simp
  next
    case False
    then have pos: "0 < n div 2" using "1.prems" by simp
    let ?b = "bits (n div 2)"
    have ih: "2 ^ (?b - 1) \<le> n div 2" "n div 2 < 2 ^ ?b" using 1 pos by simp_all
    have b: "0 < ?b" using pos by (simp add: bits.simps [of "n div 2"])
    then have e: "(2::int) ^ ?b = 2 * 2 ^ (?b - 1)" by (cases ?b) simp_all
    have bn: "bits n = Suc ?b" using "1.prems" by (simp add: bits.simps [of n])
    have "2 ^ ?b \<le> n" using ih(1) e by linarith
    moreover have "n < 2 * 2 ^ ?b" using ih(2) by linarith
    ultimately show ?thesis by (simp add: bn)
  qed
qed

lemma bits_pos: "0 < n \<Longrightarrow> 0 < bits n"
  by (simp add: bits.simps [of n])

lemma pow2_powi: "pow2 e = 2 powi e"
  by (simp add: pow2_def power_int_def power_inverse [symmetric] inverse_eq_divide
      power_one_over)

lemma pow2_pos [simp]: "0 < pow2 e"
  by (simp add: pow2_powi)

lemma pow2_nonneg [simp]: "0 \<le> pow2 e"
  using pow2_pos [of e] by (simp only: less_imp_le)

lemma pow2_neq0 [simp]: "pow2 e \<noteq> 0"
  by (metis order_less_irrefl pow2_pos)

lemma pow2_add: "pow2 (a + b) = pow2 a * pow2 b"
  by (simp add: pow2_powi power_int_add)

lemma pow2_diff: "pow2 (a - b) = pow2 a / pow2 b"
  by (simp add: pow2_powi power_int_diff)

lemma pow2_nat: "pow2 (int n) = 2 ^ n"
  by (simp add: pow2_powi)

lemma pow2_mono: "a \<le> b \<Longrightarrow> pow2 a \<le> pow2 b"
  by (simp add: pow2_powi power_int_increasing)

lemma pow2_strict_mono: "a < b \<Longrightarrow> pow2 a < pow2 b"
  by (simp add: pow2_powi power_int_strict_increasing)

lemma pow2_less_cancel: "pow2 a < pow2 b \<Longrightarrow> a < b"
  using pow2_mono [of b a] by (cases "a < b") simp_all

lemma expo_bounds:
  assumes "0 < x"
  shows "pow2 (expo x) \<le> x \<and> x < pow2 (expo x + 1)"
proof -
  obtain a b where q: "quotient_of x = (a, b)" by (cases "quotient_of x")
  have b: "0 < b" using q by (rule quotient_of_denom_pos)
  have x: "x = of_int a / of_int b" using q by (rule quotient_of_div)
  have a: "0 < a" using assms b x by (simp add: zero_less_divide_iff)
  let ?la = "bits a" and ?lb = "bits b"
  let ?e0 = "int ?la - int ?lb"
  have la: "0 < ?la" and lb: "0 < ?lb" using a b by (simp_all add: bits_pos)
  have ba: "(2::rat) ^ (?la - 1) \<le> of_int a" "(of_int a :: rat) < 2 ^ ?la"
  proof -
    have "(of_int (2 ^ (?la - 1)) :: rat) \<le> of_int a" "(of_int a :: rat) < of_int (2 ^ ?la)"
      using bits_bounds [OF a] by (simp_all only: of_int_le_iff of_int_less_iff)
    then show "(2::rat) ^ (?la - 1) \<le> of_int a" "(of_int a :: rat) < 2 ^ ?la" by simp_all
  qed
  have bb: "(2::rat) ^ (?lb - 1) \<le> of_int b" "(of_int b :: rat) < 2 ^ ?lb"
  proof -
    have "(of_int (2 ^ (?lb - 1)) :: rat) \<le> of_int b" "(of_int b :: rat) < of_int (2 ^ ?lb)"
      using bits_bounds [OF b] by (simp_all only: of_int_le_iff of_int_less_iff)
    then show "(2::rat) ^ (?lb - 1) \<le> of_int b" "(of_int b :: rat) < 2 ^ ?lb" by simp_all
  qed
  have bpos: "(0::rat) < of_int b" using b by simp
  have up: "x < pow2 (?e0 + 1)"
  proof -
    have "x < 2 ^ ?la / of_int b" unfolding x using ba(2) bpos by (simp add: divide_strict_right_mono)
    also have "\<dots> \<le> 2 ^ ?la / 2 ^ (?lb - 1)" using bb(1) by (simp add: frac_le)
    also have "\<dots> = pow2 (int ?la) / pow2 (int (?lb - 1))" by (simp add: pow2_nat)
    also have "\<dots> = pow2 (int ?la - int (?lb - 1))" by (simp add: pow2_diff)
    also have "int ?la - int (?lb - 1) = ?e0 + 1" using lb by linarith
    finally show ?thesis .
  qed
  have low: "pow2 (?e0 - 1) \<le> x"
  proof -
    have "?e0 - 1 = int (?la - 1) - int ?lb" using la by linarith
    then have "pow2 (?e0 - 1) = pow2 (int (?la - 1) - int ?lb)" by (simp only:)
    also have "\<dots> = 2 ^ (?la - 1) / 2 ^ ?lb" by (simp add: pow2_diff pow2_nat)
    also have "\<dots> \<le> of_int a / of_int b"
    proof (rule frac_le)
      show "(0::rat) \<le> of_int a" using a by simp
      show "(2::rat) ^ (?la - 1) \<le> of_int a" by (rule ba(1))
      show "(0::rat) < of_int b" by (rule bpos)
      show "(of_int b :: rat) \<le> 2 ^ ?lb" using bb(2) by (rule less_imp_le)
    qed
    finally show ?thesis unfolding x .
  qed
  have ex: "expo x = (if x < pow2 ?e0 then ?e0 - 1 else ?e0)"
    by (simp add: expo_def q Let_def)
  show ?thesis
  proof (cases "x < pow2 ?e0")
    case True
    then show ?thesis using low by (simp add: ex)
  next
    case False
    then show ?thesis using up by (simp add: ex)
  qed
qed

lemma roundEven_cases: "roundEven y = \<lfloor>y\<rfloor> \<or> roundEven y = \<lfloor>y\<rfloor> + 1"
  by (simp add: roundEven_def Let_def)

lemma roundEven_ge: "of_int j \<le> y \<Longrightarrow> j \<le> roundEven y"
proof -
  assume "of_int j \<le> y"
  then have "j \<le> \<lfloor>y\<rfloor>" by (simp add: le_floor_iff)
  then show ?thesis using roundEven_cases [of y] by auto
qed


lemma roundEven_of_int [simp]: "roundEven (of_int j) = j"
  by (simp add: roundEven_def Let_def)

lemma rd_positive:
  "0 < x \<Longrightarrow> rd x = of_int (roundEven (x / pow2 (expo x - 52))) * pow2 (expo x - 52)"
  by (simp add: rd_def Let_def)

lemma rd_nonneg: "0 \<le> x \<Longrightarrow> 0 \<le> rd x"
proof (cases "x = 0")
  case False
  assume "0 \<le> x"
  then have x: "0 < x" using False by simp
  let ?u = "pow2 (expo x - 52)"
  have "of_int 0 \<le> x / ?u" using x by simp
  then have "0 \<le> roundEven (x / ?u)" by (rule roundEven_ge)
  then show ?thesis by (simp add: rd_positive [OF x])
qed (simp add: rd_def)

lemma rd_pos: "0 < x \<Longrightarrow> 0 < rd x"
proof -
  assume x: "0 < x"
  let ?e = "expo x"
  let ?u = "pow2 (?e - 52)"
  have "pow2 ?e \<le> x" using expo_bounds [OF x] by simp
  then have "pow2 ?e / ?u \<le> x / ?u" by (intro divide_right_mono) simp_all
  moreover have "pow2 ?e / ?u = pow2 52" by (simp add: pow2_diff)
  moreover have "pow2 52 = of_int (2 ^ 52)" by (simp add: pow2_def)
  ultimately have "of_int (2 ^ 52) \<le> x / ?u" by simp
  then have "2 ^ 52 \<le> roundEven (x / ?u)" by (rule roundEven_ge)
  then have "0 < roundEven (x / ?u)" by simp
  then show ?thesis by (simp add: rd_positive [OF x])
qed

lemma expo_below_53:
  assumes "0 < x" "x < 2 ^ 53"
  shows "expo x \<le> 52"
proof -
  have "pow2 (expo x) \<le> x" using expo_bounds [OF assms(1)] by simp
  then have "pow2 (expo x) < pow2 53" using assms(2) by (simp add: pow2_def)
  then have "expo x < 53" by (rule pow2_less_cancel)
  then show ?thesis by simp
qed

text \<open>Below \<open>2^53\<close> the doubles are at most 1 apart, and a whole number is one of them.\<close>

lemma ulp_inverse:
  assumes "e \<le> 52"
  shows "1 / pow2 (e - 52) = of_int (2 ^ nat (52 - e))"
proof -
  have "pow2 (e - 52) = 1 / 2 ^ nat (52 - e)"
  proof (cases "e = 52")
    case True
    then show ?thesis by (simp add: pow2_def)
  next
    case False
    then have "\<not> 0 \<le> e - 52" using assms by simp
    then show ?thesis by (simp add: pow2_def)
  qed
  then show ?thesis by simp
qed

lemma rd_int_exact:
  assumes "0 \<le> n" "n < 2 ^ 53"
  shows "rd (of_int n) = of_int n"
proof (cases "n = 0")
  case False
  then have n: "0 < n" using assms(1) by simp
  let ?x = "of_int n :: rat"
  have x: "0 < ?x" "?x < 2 ^ 53" using n assms(2) by (simp_all flip: of_int_less_iff)
  let ?e = "expo ?x"
  let ?u = "pow2 (?e - 52)"
  have e: "?e \<le> 52" using x by (rule expo_below_53)
  have "?x / ?u = ?x * (1 / ?u)" by simp
  also have "\<dots> = of_int (n * 2 ^ nat (52 - ?e))" by (simp only: ulp_inverse [OF e] of_int_mult)
  finally have m: "?x / ?u = of_int (n * 2 ^ nat (52 - ?e))" .
  have "rd ?x = of_int (roundEven (?x / ?u)) * ?u" using x(1) by (rule rd_positive)
  also have "\<dots> = of_int (n * 2 ^ nat (52 - ?e)) * ?u" by (simp only: m roundEven_of_int)
  also have "\<dots> = (?x / ?u) * ?u" by (simp only: m)
  also have "\<dots> = ?x" by simp
  finally show ?thesis .
qed (simp add: rd_def)


section \<open>The symbol encoder\<close>

lemma unit_small: "(c::16 word) < 256 \<Longrightarrow> uint c < 256"
  by (simp add: word_less_def)

lemma unit_pos: "(c::16 word) \<noteq> 0 \<Longrightarrow> 0 < uint c"
  by (simp add: word_greater_zero_iff flip: word_less_def uint_0_iff) (metis uint_0_iff uint_nonnegative order_le_less)

lemma unit_less: "((c::16 word) < d) = (uint c < uint d)"
  by (rule word_less_def)

lemma symbolValue_snoc: "symbolValue (s @ [c]) = symbolValue s * 256 + uint c"
  by (simp add: symbolValue_def)

lemma symbolValue_Nil: "symbolValue [] = 0"
  by (simp add: symbolValue_def)

lemma symbolValue_nonneg: "0 \<le> symbolValue s"
  by (induction s rule: rev_induct) (simp_all add: symbolValue_snoc symbolValue_Nil)

lemma symbolValue_upper: "\<forall>c\<in>set s. c < 256 \<Longrightarrow> symbolValue s < 256 ^ length s"
proof (induction s rule: rev_induct)
  case Nil
  show ?case by (simp add: symbolValue_Nil)
next
  case (snoc c s)
  define p :: int where "p = 256 ^ length s"
  have "uint c < 256" using snoc.prems by (simp add: unit_small)
  moreover have "symbolValue s < p" using snoc by (simp add: p_def)
  ultimately have "symbolValue s * 256 + uint c < 256 * p" by linarith
  then show ?case by (simp add: symbolValue_snoc p_def)
qed

lemma symbolValue_Cons: "symbolValue (c # s) = uint c * 256 ^ length s + symbolValue s"
proof (induction s rule: rev_induct)
  case Nil
  show ?case by (simp add: symbolValue_def)
next
  case (snoc d s)
  have "symbolValue (c # s @ [d]) = symbolValue ((c # s) @ [d])" by simp
  also have "\<dots> = symbolValue (c # s) * 256 + uint d" by (rule symbolValue_snoc)
  finally show ?case using snoc by (simp add: symbolValue_snoc algebra_simps)
qed

lemma symbolValue_pos: "s \<noteq> [] \<Longrightarrow> \<forall>c\<in>set s. c \<noteq> 0 \<Longrightarrow> 0 < symbolValue s"
proof (induction s rule: rev_induct)
  case Nil
  then show ?case by simp
next
  case (snoc c s)
  have "0 \<le> symbolValue s" by (rule symbolValue_nonneg)
  moreover have "0 < uint c" using snoc.prems by (simp add: unit_pos)
  ultimately show ?case by (simp add: symbolValue_snoc)
qed

lemma symbolValue_inj:
  "\<forall>c\<in>set s. c \<noteq> 0 \<and> c < 256 \<Longrightarrow> \<forall>c\<in>set t. c \<noteq> 0 \<and> c < 256 \<Longrightarrow>
   symbolValue s = symbolValue t \<Longrightarrow> s = t"
proof (induction s arbitrary: t rule: rev_induct)
  case Nil
  show ?case
  proof (cases "t = []")
    case False
    with Nil symbolValue_pos [of t] show ?thesis by (simp add: symbolValue_Nil)
  qed simp
next
  case (snoc c s)
  show ?case
  proof (cases t rule: rev_cases)
    case Nil
    with snoc.prems symbolValue_pos [of "s @ [c]"] show ?thesis by (simp add: symbolValue_Nil)
  next
    case (snoc t' d)
    have eq: "symbolValue s * 256 + uint c = symbolValue t' * 256 + uint d"
      using snoc.prems(3) snoc by (simp add: symbolValue_snoc)
    have c: "0 \<le> uint c" "uint c < 256" and d: "0 \<le> uint d" "uint d < 256"
      using snoc.prems(1,2) snoc by (simp_all add: unit_small)
    have "(symbolValue s * 256 + uint c) mod 256 = uint c" using c by simp
    moreover have "(symbolValue t' * 256 + uint d) mod 256 = uint d" using d by simp
    ultimately have cd: "uint c = uint d" using eq by simp
    then have "c = d" by (simp only: word_uint_eq_iff)
    moreover have "symbolValue s = symbolValue t'" using eq cd by simp
    then have "s = t'" using snoc.IH [of t'] snoc.prems snoc by simp
    ultimately show ?thesis using snoc by simp
  qed
qed

lemma symbolValue_less_iff:
  "length s = length t \<Longrightarrow> \<forall>c\<in>set s. c < 256 \<Longrightarrow> \<forall>c\<in>set t. c < 256 \<Longrightarrow>
   symbolValue s < symbolValue t \<longleftrightarrow> s < t"
proof (induction s t rule: list_induct2)
  case Nil
  show ?case by simp
next
  case (Cons c s d t)
  let ?n = "length s"
  have bs: "0 \<le> symbolValue s" "symbolValue s < 256 ^ ?n"
    using symbolValue_nonneg [of s] symbolValue_upper [of s] Cons.prems by simp_all
  have bt: "0 \<le> symbolValue t" "symbolValue t < 256 ^ ?n"
    using symbolValue_nonneg [of t] symbolValue_upper [of t] Cons.hyps Cons.prems by simp_all
  have ih: "symbolValue s < symbolValue t \<longleftrightarrow> s < t" using Cons by simp
  consider "uint c < uint d" | "c = d" | "uint d < uint c"
    by (metis linorder_less_linear word_uint_eq_iff)
  then show ?case
  proof cases
    case 1
    then have "uint c + 1 \<le> uint d" by simp
    then have "(uint c + 1) * 256 ^ ?n \<le> uint d * 256 ^ ?n"
      by (rule mult_right_mono) simp
    then have "symbolValue (c # s) < symbolValue (d # t)"
      using bs bt Cons.hyps by (simp add: symbolValue_Cons algebra_simps)
    moreover have "c # s < d # t" using 1 by (simp add: unit_less)
    ultimately show ?thesis by simp
  next
    case 2
    then show ?thesis using ih Cons.hyps by (simp add: symbolValue_Cons)
  next
    case 3
    then have "uint d + 1 \<le> uint c" by simp
    then have "(uint d + 1) * 256 ^ ?n \<le> uint c * 256 ^ ?n"
      by (rule mult_right_mono) simp
    then have "symbolValue (d # t) < symbolValue (c # s)"
      using bs bt Cons.hyps by (simp add: symbolValue_Cons algebra_simps)
    moreover have "d # t < c # s" using 3 by (simp add: unit_less)
    ultimately show ?thesis by (meson order_less_asym)
  qed
qed

lemma symbolKey_snoc:
  "symbolKey (s @ [c]) = \<lfloor>rd (of_int (symbolKey s * 256 + uint c))\<rfloor>"
  by (simp add: symbolKey_def)

lemma symbolKey_nonneg: "0 \<le> symbolKey s"
proof (induction s rule: rev_induct)
  case Nil
  show ?case by (simp add: symbolKey_def)
next
  case (snoc c s)
  then have "0 \<le> symbolKey s * 256 + uint c" by simp
  then have "(0::rat) \<le> of_int (symbolKey s * 256 + uint c)" by (simp only: of_int_0_le_iff)
  then have "0 \<le> rd (of_int (symbolKey s * 256 + uint c))" by (rule rd_nonneg)
  then show ?case by (simp add: symbolKey_snoc)
qed

text \<open>Up to six code units below 256 the fold never rounds.\<close>

lemma symbolKey_exact:
  "length s \<le> 6 \<Longrightarrow> \<forall>c\<in>set s. c < 256 \<Longrightarrow> symbolKey s = symbolValue s"
proof (induction s rule: rev_induct)
  case Nil
  show ?case by (simp add: symbolKey_def symbolValue_def)
next
  case (snoc c s)
  have ih: "symbolKey s = symbolValue s" using snoc by simp
  let ?v = "symbolValue (s @ [c])"
  have "?v < 256 ^ length (s @ [c])" using snoc.prems(2) by (rule symbolValue_upper)
  also have "\<dots> \<le> (256::int) ^ 6" using snoc.prems(1) by (intro power_increasing) simp_all
  finally have lt: "?v < 2 ^ 53" by simp
  have "0 \<le> ?v" by (rule symbolValue_nonneg)
  then have ex: "rd (of_int ?v) = of_int ?v" using lt by (rule rd_int_exact)
  have "symbolKey (s @ [c]) = \<lfloor>rd (of_int (symbolKey s * 256 + uint c))\<rfloor>"
    by (rule symbolKey_snoc)
  also have "\<dots> = \<lfloor>rd (of_int ?v)\<rfloor>" by (simp only: ih symbolValue_snoc)
  also have "\<dots> = \<lfloor>of_int ?v :: rat\<rfloor>" by (simp only: ex)
  also have "\<dots> = ?v" by (rule floor_of_int)
  finally show ?case .
qed

text \<open>From seven code units on the fold rounds: two symbols share a key.\<close>

lemma long_symbols_collide:
  "symbolKey (units ''ABCDEFG'') = 18368730161825352 \<and>
   symbolKey (units ''ABCDEFH'') = 18368730161825352"
  by code_simp

section \<open>The radix sorter on keys that are not negative\<close>

lemma collect_Suc: "collect f (Suc n) xs = collect f n xs @ filter (\<lambda>x. f x = n) xs"
  by (simp add: collect_def)

lemma set_collect: "set (collect f n xs) = {x \<in> set xs. f x < n}"
  by (induction n) (auto simp: collect_Suc collect_def less_Suc_eq)

lemma filter_collect:
  "filter (\<lambda>x. f x = i) (collect f n xs) = (if i < n then filter (\<lambda>x. f x = i) xs else [])"
proof (induction n)
  case 0
  show ?case by (simp add: collect_def)
next
  case (Suc n)
  have "filter (\<lambda>x. f x = i) (filter (\<lambda>x. f x = n) xs) = (if i = n then filter (\<lambda>x. f x = i) xs else [])"
    by (induction xs) auto
  with Suc show ?case by (auto simp: collect_Suc)
qed


lemma mset_collect: "mset (collect f n xs) = mset (filter (\<lambda>x. f x < n) xs)"
proof (induction n)
  case 0
  show ?case by (simp add: collect_def)
next
  case (Suc n)
  have "mset (filter (\<lambda>x. f x < n) xs) + mset (filter (\<lambda>x. f x = n) xs)
      = mset (filter (\<lambda>x. f x < Suc n) xs)"
    by (induction xs) (auto simp: less_Suc_eq)
  with Suc show ?case by (simp add: collect_Suc)
qed


lemma jsRem_nonneg: "0 \<le> a \<Longrightarrow> jsRem a 10 = a mod 10"
  by (cases "a = 0") (simp_all add: jsRem_def)

lemma floor_digit_nonneg: "0 \<le> k \<Longrightarrow> 0 \<le> \<lfloor>rd (of_int k / rd (10 ^ d))\<rfloor>"
proof -
  assume "0 \<le> k"
  moreover have "0 < rd (10 ^ d)" by (rule rd_pos) simp
  ultimately have "0 \<le> of_int k / rd (10 ^ d)" by simp
  then have "0 \<le> rd (of_int k / rd (10 ^ d))" by (rule rd_nonneg)
  then show ?thesis by simp
qed

lemma digitValue_nonneg: "0 \<le> keyOf x \<Longrightarrow> digitValue d x = int (digitOf d x)"
proof -
  assume "0 \<le> keyOf x"
  then have f: "0 \<le> \<lfloor>rd (of_int (keyOf x) / rd (10 ^ d))\<rfloor>" by (rule floor_digit_nonneg)
  show ?thesis by (simp add: digitValue_def digitOf_def Let_def jsRem_nonneg [OF f])
qed


lemma digitOf_less: "digitOf d x < 10"
  by (simp add: digitOf_def nat_less_iff)

lemma distribute_nonneg:
  "\<forall>x\<in>set xs. 0 \<le> keyOf x \<Longrightarrow> length bs = 10 \<Longrightarrow>
   distribute d xs bs = Inr (map (\<lambda>i. bs ! i @ filter (\<lambda>x. digitOf d x = i) xs) [0..<10])"
proof (induction xs arbitrary: bs)
  case Nil
  then show ?case by (simp add: list_eq_iff_nth_eq)
next
  case (Cons x xs)
  let ?j = "digitOf d x"
  let ?bs = "bs[?j := bs ! ?j @ [x]]"
  have dv: "digitValue d x = int ?j" using Cons.prems(1) by (simp add: digitValue_nonneg)
  have j: "?j < 10" by (rule digitOf_less)
  have "distribute d (x # xs) bs = distribute d xs ?bs"
    using dv j Cons.prems(2) by simp
  also have "\<dots> = Inr (map (\<lambda>i. ?bs ! i @ filter (\<lambda>x. digitOf d x = i) xs) [0..<10])"
    using Cons.IH [of ?bs] Cons.prems by simp
  also have "map (\<lambda>i. ?bs ! i @ filter (\<lambda>x. digitOf d x = i) xs) [0..<10]
      = map (\<lambda>i. bs ! i @ filter (\<lambda>x. digitOf d x = i) (x # xs)) [0..<10]"
    using Cons.prems(2) by (auto simp: nth_list_update)
  finally show ?case .
qed

lemma pass_nonneg:
  assumes "\<forall>x\<in>set xs. 0 \<le> keyOf x"
  shows "distribute d xs (replicate 10 []) = Inr bs \<Longrightarrow> concat bs = collect (digitOf d) 10 xs"
proof -
  assume "distribute d xs (replicate 10 []) = Inr bs"
  then have "bs = map (\<lambda>i. replicate 10 [] ! i @ filter (\<lambda>x. digitOf d x = i) xs) [0..<10]"
    using distribute_nonneg [OF assms, of "replicate 10 []" d] by simp
  also have "\<dots> = map (\<lambda>i. filter (\<lambda>x. digitOf d x = i) xs) [0..<10]"
    by (rule map_cong) simp_all
  finally show ?thesis by (simp add: collect_def)
qed



lemma pass_exists:
  assumes "\<forall>x\<in>set xs. 0 \<le> keyOf x"
  shows "\<exists>bs. distribute d xs (replicate 10 []) = Inr bs \<and> concat bs = collect (digitOf d) 10 xs"
proof -
  obtain bs where bs: "distribute d xs (replicate 10 []) = Inr bs"
    using distribute_nonneg [OF assms, of "replicate 10 []" d] by simp
  then show ?thesis using pass_nonneg [OF assms bs] by blast
qed

lemma mset_pass: "mset (collect (digitOf d) 10 xs) = mset xs"
  by (simp add: mset_collect digitOf_less)

lemma set_pass: "set (collect (digitOf d) 10 xs) = set xs"
  by (simp add: set_collect digitOf_less)

lemma filter_key_pass:
  "filter (\<lambda>x. keyOf x = c) (collect (digitOf d) 10 xs) = filter (\<lambda>x. keyOf x = c) xs"
proof -
  let ?j = "nat (\<lfloor>rd (of_int c / rd (10 ^ d))\<rfloor> mod 10)"
  have j: "?j < 10" by (simp add: nat_less_iff)
  have imp: "(keyOf x = c) = (digitOf d x = ?j \<and> keyOf x = c)" for x
    by (auto simp: digitOf_def)
  have "filter (\<lambda>x. keyOf x = c) ys = filter (\<lambda>x. keyOf x = c) (filter (\<lambda>x. digitOf d x = ?j) ys)"
    for ys :: "Transaction list"
    using imp by (simp add: conj_commute)
  then show ?thesis
    using filter_collect [of "digitOf d" ?j 10 xs] j by metis
qed


text \<open>
  Whatever the digits are, the loop returns on keys that are not negative, and keeps the
  items of one key in their order.
\<close>

lemma radixLoop_nonneg:
  assumes "\<forall>x\<in>set xs. 0 \<le> keyOf x"
  shows "\<exists>ys. radixLoop d m xs = Inr ys \<and> mset ys = mset xs \<and>
           (\<forall>c. filter (\<lambda>x. keyOf x = c) ys = filter (\<lambda>x. keyOf x = c) xs)"
  using assms
proof (induction "m - d" arbitrary: d xs)
  case 0
  then have "\<not> d < m" by simp
  then show ?case by (simp add: radixLoop.simps)
next
  case (Suc n)
  then have lt: "d < m" by simp
  let ?zs = "collect (digitOf d) 10 xs"
  obtain bs where bs: "distribute d xs (replicate 10 []) = Inr bs" "concat bs = ?zs"
    using pass_exists [OF Suc.prems(1)] by blast
  have step: "radixLoop d m xs = radixLoop (Suc d) m ?zs"
    using lt bs by (subst radixLoop.simps) simp
  have "\<exists>ys. radixLoop (Suc d) m ?zs = Inr ys \<and> mset ys = mset ?zs \<and>
           (\<forall>c. filter (\<lambda>x. keyOf x = c) ys = filter (\<lambda>x. keyOf x = c) ?zs)"
  proof (rule Suc.hyps(1))
    show "n = m - Suc d" using Suc.hyps(2) by simp
    show "\<forall>x\<in>set ?zs. 0 \<le> keyOf x" using Suc.prems(1) by (simp add: set_pass)
  qed
  then show ?case by (simp add: step mset_pass filter_key_pass)
qed








lemma encode_sortKey_update [simp]: "encode k (item\<lparr>sortKey := v\<rparr>) = encode k item"
  by (simp add: encode_def split: SortKey.split)

lemma core_sortKey_update [simp]: "core (item\<lparr>sortKey := v\<rparr>) = core item"
  by (simp add: core_def)

lemma keyOf_preprocessed: "y \<in> set (preprocessForRadix arr k) \<Longrightarrow> keyOf y = encode k y"
  by (auto simp: preprocessForRadix_def keyOf_def)

lemma map_core_preprocess: "map core (preprocessForRadix arr k) = map core arr"
  by (simp add: preprocessForRadix_def)

lemma filter_preprocess:
  "filter (\<lambda>x. encode k x = c) (preprocessForRadix arr k)
     = preprocessForRadix (filter (\<lambda>x. encode k x = c) arr) k"
  by (simp add: preprocessForRadix_def filter_map o_def)


lemma radixSort_short: "length arr \<le> 1 \<Longrightarrow> radixSort clock arr k = Inr (arr, 0)"
  by (simp add: radixSort_def)

lemma radixSort_long:
  assumes len: "1 < length arr" and nn: "\<forall>t\<in>set arr. 0 \<le> encode k t"
  shows "\<exists>ys. radixSort clock arr k = Inr (ys, snd clock - fst clock) \<and>
           mset ys = mset (preprocessForRadix arr k) \<and>
           (\<forall>c. filter (\<lambda>x. encode k x = c) ys
                  = preprocessForRadix (filter (\<lambda>x. encode k x = c) arr) k)"
proof -
  let ?pre = "preprocessForRadix arr k"
  let ?keys = "map keyOf ?pre"
  let ?maxVal = "fold max (tl ?keys) (hd ?keys)"
  have key: "keyOf y = encode k y" if "y \<in> set ?pre" for y
    using that by (rule keyOf_preprocessed)
  have nn': "\<forall>x\<in>set ?pre. 0 \<le> keyOf x"
    using nn by (auto simp: preprocessForRadix_def keyOf_def)
  obtain ys where ys: "radixLoop 0 (toStringLength ?maxVal) ?pre = Inr ys" "mset ys = mset ?pre"
      "\<And>c. filter (\<lambda>x. keyOf x = c) ys = filter (\<lambda>x. keyOf x = c) ?pre"
    using radixLoop_nonneg [OF nn', of 0 "toStringLength ?maxVal"] by auto
  have set: "set ys = set ?pre" using ys(2) by (rule mset_eq_setD)
  have flt: "filter (\<lambda>x. encode k x = c) ys = preprocessForRadix (filter (\<lambda>x. encode k x = c) arr) k"
    for c
  proof -
    have "filter (\<lambda>x. encode k x = c) ys = filter (\<lambda>x. keyOf x = c) ys"
      by (rule filter_cong) (simp_all add: set key)
    also have "\<dots> = filter (\<lambda>x. keyOf x = c) ?pre" by (rule ys(3))
    also have "\<dots> = filter (\<lambda>x. encode k x = c) ?pre"
      by (rule filter_cong) (simp_all add: key)
    finally show ?thesis by (simp add: filter_preprocess)
  qed
  have "radixSort clock arr k = Inr (ys, snd clock - fst clock)"
    using len ys(1) by (simp add: radixSort_def Let_def)
  then show ?thesis using ys(2) flt by blast
qed


lemma parallelRadixSort_eq: "parallelRadixSort = radixSort"
  by (intro ext) (simp add: parallelRadixSort_def radixSort_def)

section \<open>The merge sorter\<close>

lemma mset_merge: "mset (merge k xs ys) = mset xs + mset ys"
  by (induction k xs ys rule: merge.induct) simp_all

lemma set_merge: "set (merge k xs ys) = set xs \<union> set ys"
  by (induction k xs ys rule: merge.induct) auto

lemma sorted_merge:
  fixes f :: "Transaction \<Rightarrow> 'k::linorder"
  assumes le: "\<And>a b. fieldLe k a b \<longleftrightarrow> f a \<le> f b"
  shows "sorted (map f xs) \<Longrightarrow> sorted (map f ys) \<Longrightarrow> sorted (map f (merge k xs ys))"
  using le by (induction k xs ys rule: merge.induct) (auto simp: set_merge)

lemma filter_merge:
  fixes f :: "Transaction \<Rightarrow> 'k::linorder"
  assumes le: "\<And>a b. fieldLe k a b \<longleftrightarrow> f a \<le> f b"
  shows "sorted (map f xs) \<Longrightarrow> sorted (map f ys) \<Longrightarrow>
    filter (\<lambda>x. f x = c) (merge k xs ys) = filter (\<lambda>x. f x = c) xs @ filter (\<lambda>x. f x = c) ys"
  using le
proof (induction k xs ys rule: merge.induct)
  case (3 k l left r right)
  show ?case
  proof (cases "fieldLe k l r")
    case True
    then show ?thesis using 3 by simp
  next
    case False
    then have lt: "f r < f l" using "3.prems"(3) by (simp add: not_le)
    have "\<forall>x\<in>set (l # left). f r < f x" using lt "3.prems"(1) by auto
    then have "f r = c \<Longrightarrow> filter (\<lambda>x. f x = c) (l # left) = []"
      by (auto simp: filter_empty_conv)
    then show ?thesis using False 3 by auto
  qed
qed simp_all

lemma mset_sortRec: "mset (sortRec k xs) = mset xs"
proof (induction k xs rule: sortRec.induct)
  case (1 k array)
  show ?case
  proof (cases "length array \<le> 1")
    case True
    then show ?thesis by (simp add: sortRec.simps [of k array])
  next
    case False
    have "mset (take (length array div 2) array) + mset (drop (length array div 2) array) = mset array"
      by (metis append_take_drop_id mset_append)
    then show ?thesis using False 1 by (simp add: sortRec.simps [of k array] mset_merge Let_def)
  qed
qed

lemma sorted_sortRec:
  fixes f :: "Transaction \<Rightarrow> 'k::linorder"
  assumes le: "\<And>a b. fieldLe k a b \<longleftrightarrow> f a \<le> f b"
  shows "sorted (map f (sortRec k xs))"
  using le
proof (induction k xs rule: sortRec.induct)
  case (1 k array)
  show ?case
  proof (cases "length array \<le> 1")
    case True
    then have "sortRec k array = array" by (simp add: sortRec.simps [of k array])
    then show ?thesis using True by (cases array) simp_all
  next
    case False
    then show ?thesis using 1 sorted_merge [of k f]
      by (simp add: sortRec.simps [of k array] Let_def)
  qed
qed

lemma filter_sortRec:
  fixes f :: "Transaction \<Rightarrow> 'k::linorder"
  assumes le: "\<And>a b. fieldLe k a b \<longleftrightarrow> f a \<le> f b"
  shows "filter (\<lambda>x. f x = c) (sortRec k xs) = filter (\<lambda>x. f x = c) xs"
  using le
proof (induction k xs rule: sortRec.induct)
  case (1 k array)
  show ?case
  proof (cases "length array \<le> 1")
    case True
    then show ?thesis by (simp add: sortRec.simps [of k array])
  next
    case False
    let ?l = "take (length array div 2) array" and ?r = "drop (length array div 2) array"
    have "filter (\<lambda>x. f x = c) (merge k (sortRec k ?l) (sortRec k ?r))
        = filter (\<lambda>x. f x = c) (sortRec k ?l) @ filter (\<lambda>x. f x = c) (sortRec k ?r)"
      using "1.prems" by (intro filter_merge sorted_sortRec)
    also have "\<dots> = filter (\<lambda>x. f x = c) ?l @ filter (\<lambda>x. f x = c) ?r"
      using 1 False by simp
    also have "\<dots> = filter (\<lambda>x. f x = c) array"
      by (metis append_take_drop_id filter_append)
    finally show ?thesis using False by (simp add: sortRec.simps [of k array] Let_def)
  qed
qed

section \<open>Sorted output of the two sorters\<close>

lemma fieldLe_price: "fieldLe Price a b \<longleftrightarrow> price a \<le> price b"
  and fieldLe_symbol: "fieldLe Symbol a b \<longleftrightarrow> symbol a \<le> symbol b"
  and fieldLe_timestamp: "fieldLe Timestamp a b \<longleftrightarrow> timestamp a \<le> timestamp b"
  by (simp_all add: fieldLe_def)


lemma stable_sortRec:
  "filter (\<lambda>x. fieldLe k x t \<and> fieldLe k t x) (sortRec k arr)
     = filter (\<lambda>x. fieldLe k x t \<and> fieldLe k t x) arr"
proof (cases k)
  case Price
  have "filter (\<lambda>x. price x = price t) (sortRec Price arr) = filter (\<lambda>x. price x = price t) arr"
    by (rule filter_sortRec) (rule fieldLe_price)
  moreover have "(fieldLe Price x t \<and> fieldLe Price t x) = (price x = price t)" for x
    by (auto simp: fieldLe_def)
  ultimately show ?thesis using Price by simp
next
  case Symbol
  have "filter (\<lambda>x. symbol x = symbol t) (sortRec Symbol arr) = filter (\<lambda>x. symbol x = symbol t) arr"
    by (rule filter_sortRec) (rule fieldLe_symbol)
  moreover have "(fieldLe Symbol x t \<and> fieldLe Symbol t x) = (symbol x = symbol t)" for x
    by (auto simp: fieldLe_def)
  ultimately show ?thesis using Symbol by simp
next
  case Timestamp
  have "filter (\<lambda>x. timestamp x = timestamp t) (sortRec Timestamp arr)
      = filter (\<lambda>x. timestamp x = timestamp t) arr"
    by (rule filter_sortRec) (rule fieldLe_timestamp)
  moreover have "(fieldLe Timestamp x t \<and> fieldLe Timestamp t x) = (timestamp x = timestamp t)" for x
    by (auto simp: fieldLe_def)
  ultimately show ?thesis using Timestamp by simp
qed

lemma fst_mergeSort: "fst (mergeSort clock arr k) = sortRec k arr"
  and fst_mergeSort_v0: "fst (mergeSort_v0 clock arr k) = sortRec k arr"
  by (simp_all add: mergeSort_def mergeSort_v0_def Let_def)







text \<open>What \<open>radixSort\<close> returns when no key is negative, for every length.\<close>

lemma radixSort_nonneg:
  assumes nn: "\<forall>t\<in>set arr. 0 \<le> encode k t"
  shows "\<exists>ys. radixSort clock arr k = Inr (ys, if length arr \<le> 1 then 0 else snd clock - fst clock) \<and>
           mset (map core ys) = mset (map core arr) \<and>
           (\<forall>c. map core (filter (\<lambda>y. encode k y = c) ys)
                  = map core (filter (\<lambda>x. encode k x = c) arr)) \<and>
           (\<forall>y\<in>set ys. \<exists>x\<in>set arr. y = x \<or> y = x\<lparr>sortKey := Some (encode k x)\<rparr>)"
proof (cases "length arr \<le> 1")
  case True
  then show ?thesis by (auto simp: radixSort_short)
next
  case False
  then obtain ys where ys: "radixSort clock arr k = Inr (ys, snd clock - fst clock)"
      "mset ys = mset (preprocessForRadix arr k)"
      "\<And>c. filter (\<lambda>x. encode k x = c) ys
             = preprocessForRadix (filter (\<lambda>x. encode k x = c) arr) k"
    using radixSort_long [OF _ nn, of clock] by auto
  have "mset (map core ys) = mset (map core (preprocessForRadix arr k))"
    using ys(2) by (metis mset_map)
  then have m: "mset (map core ys) = mset (map core arr)" by (simp add: map_core_preprocess)
  have "set ys = set (preprocessForRadix arr k)" using ys(2) by (rule mset_eq_setD)
  then have el: "\<forall>y\<in>set ys. \<exists>x\<in>set arr. y = x \<or> y = x\<lparr>sortKey := Some (encode k x)\<rparr>"
    by (auto simp: preprocessForRadix_def)
  show ?thesis using False ys(1) m el by (simp add: ys(3) map_core_preprocess)
qed


section \<open>The scheduler tick\<close>

lemma sortTransactions_nonneg:
  assumes nn: "\<forall>t\<in>set data. 0 \<le> encode (sortBy s) t"
  shows "\<exists>ys. radixSort (radixClock inp) data (sortBy s)
              = Inr (ys, if length data \<le> 1 then 0 else snd (radixClock inp) - fst (radixClock inp)) \<and>
           sortTransactions s inp data
              = Inr (if sortMethod s = Radix then ys else sortRec (sortBy s) data,
                     if length data \<le> 1 then 0 else snd (radixClock inp) - fst (radixClock inp),
                     (snd (mergeClock inp) - fst (mergeClock inp)) * (5 / 2)) \<and>
           (\<forall>y\<in>set ys. \<exists>x\<in>set data. y = x \<or> y = x\<lparr>sortKey := Some (encode (sortBy s) x)\<rparr>)"
proof -
  obtain ys where ys: "radixSort (radixClock inp) data (sortBy s)
      = Inr (ys, if length data \<le> 1 then 0 else snd (radixClock inp) - fst (radixClock inp))"
      "\<forall>y\<in>set ys. \<exists>x\<in>set data. y = x \<or> y = x\<lparr>sortKey := Some (encode (sortBy s) x)\<rparr>"
    using radixSort_nonneg [OF nn, of "radixClock inp"] by blast
  have "sortTransactions s inp data
      = Inr (if sortMethod s = Radix then ys else sortRec (sortBy s) data,
             if length data \<le> 1 then 0 else snd (radixClock inp) - fst (radixClock inp),
             (snd (mergeClock inp) - fst (mergeClock inp)) * (5 / 2))"
    by (simp add: sortTransactions_def ys(1) mergeSort_def Let_def)
  then show ?thesis using ys by blast
qed

lemma tick_below:
  assumes "length (appendBatch inp s) < 500"
  shows "tick inp s
    = Inr (s\<lparr>currentStats := (currentStats s)
                \<lparr>totalTransactions := totalTransactions (currentStats s) + transactionRate s div 10\<rparr>,
              transactionBuffer := appendBatch inp s\<rparr>)"
  using assms by (simp add: tick_def Let_def)

lemma tick_flush:
  assumes fl: "500 \<le> length (appendBatch inp s)"
    and st: "sortTransactions s inp (appendBatch inp s) = Inr (out, rTime, mTime)"
  shows "tick inp s
    = Inr (s\<lparr>sortedTransactions := sliceLast 500 out,
              performanceData := sliceLast 20 (performanceData s) @
                [\<lparr>time = now inp,
                  sample_radixTime = radixTime (currentStats s),
                  sample_mergeTime = mergeTime (currentStats s),
                  transactions = length (appendBatch inp s),
                  sample_totalTransactions =
                    totalTransactions (currentStats s) + length (appendBatch inp s)\<rparr>],
              currentStats :=
                \<lparr>totalTransactions = totalTransactions (currentStats s) + length (appendBatch inp s),
                 avgSortTime = (radixTime (currentStats s) + mergeTime (currentStats s)) / 2,
                 radixTime = rTime, mergeTime = mTime\<rparr>,
              transactionBuffer := []\<rparr>)"
  using fl by (simp add: tick_def Let_def st)

lemma set_sliceLast: "set (sliceLast n xs) \<subseteq> set xs"
  by (simp add: sliceLast_def set_drop_subset)

lemma length_sliceLast: "length (sliceLast n xs) = min n (length xs)"
  by (simp add: sliceLast_def)

lemma rd_10000 [simp]: "rd 10000 = 10000"
  using rd_int_exact [of 10000] by simp

lemma rd_5000 [simp]: "rd 5000 = 5000"
  using rd_int_exact [of 5000] by simp

lemma rd_100 [simp]: "rd 100 = 100"
  using rd_int_exact [of 100] by simp

lemma rd_50 [simp]: "rd 50 = 50"
  using rd_int_exact [of 50] by simp

lemma busy_batch:
  assumes "transactionRate s = 5000" "transactionBuffer s = []"
  shows "length (appendBatch busyInput s) = 500"
    and "\<forall>t\<in>set (appendBatch busyInput s). 0 \<le> encode Price t"
  using assms by (auto simp: appendBatch_def busyInput_def trade_def encode_def)

text \<open>A flushing tick on keys that are not negative: both sorters return.\<close>

lemma tick_flush_nonneg:
  assumes fl: "500 \<le> length (appendBatch inp s)"
    and nn: "\<forall>t\<in>set (appendBatch inp s). 0 \<le> encode (sortBy s) t"
  shows "\<exists>out. sortTransactions s inp (appendBatch inp s)
             = Inr (out, snd (radixClock inp) - fst (radixClock inp),
                    (snd (mergeClock inp) - fst (mergeClock inp)) * (5 / 2)) \<and>
           length out = length (appendBatch inp s) \<and>
           (\<forall>y\<in>set out. \<exists>x\<in>set (appendBatch inp s).
              y = (if sortMethod s = Radix then x\<lparr>sortKey := Some (encode (sortBy s) x)\<rparr> else x))"
proof -
  let ?buf = "appendBatch inp s"
  have len: "\<not> length ?buf \<le> 1" using fl by simp
  obtain ys where ys: "sortTransactions s inp ?buf
      = Inr (if sortMethod s = Radix then ys else sortRec (sortBy s) ?buf,
             snd (radixClock inp) - fst (radixClock inp),
             (snd (mergeClock inp) - fst (mergeClock inp)) * (5 / 2))"
      "radixSort (radixClock inp) ?buf (sortBy s)
         = Inr (ys, snd (radixClock inp) - fst (radixClock inp))"
    using sortTransactions_nonneg [OF nn, of inp] len by auto
  obtain zs where zs: "radixSort (radixClock inp) ?buf (sortBy s)
        = Inr (zs, snd (radixClock inp) - fst (radixClock inp))"
      "mset zs = mset (preprocessForRadix ?buf (sortBy s))"
    using radixSort_long [OF _ nn, of "radixClock inp"] len by auto
  have zy: "zs = ys" using ys(2) zs(1) by simp
  have "length zs = length (preprocessForRadix ?buf (sortBy s))"
    using zs(2) by (rule mset_eq_length)
  then have ly: "length ys = length ?buf" using zy by (simp add: preprocessForRadix_def)
  have lm: "length (sortRec (sortBy s) ?buf) = length ?buf"
    using mset_sortRec [of "sortBy s" ?buf] by (rule mset_eq_length)
  have "set ys = set (preprocessForRadix ?buf (sortBy s))"
    using zy zs(2) mset_eq_setD by blast
  then have r: "\<forall>y\<in>set ys. \<exists>x\<in>set ?buf. y = x\<lparr>sortKey := Some (encode (sortBy s) x)\<rparr>"
    by (auto simp: preprocessForRadix_def)
  have "set (sortRec (sortBy s) ?buf) = set ?buf"
    using mset_sortRec [of "sortBy s" ?buf] mset_eq_setD by blast
  then have m: "\<forall>y\<in>set (sortRec (sortBy s) ?buf). \<exists>x\<in>set ?buf. y = x" by simp
  show ?thesis
  proof (cases "sortMethod s = Radix")
    case True
    then show ?thesis using ys(1) r ly by auto
  next
    case False
    then show ?thesis using ys(1) m lm by auto
  qed
qed

text \<open>
  What a flushing tick of \<^verbatim>\<open>TradeWiz.tsx\<close> writes: the new durations into the statistics, the
  durations rendered before the tick into the average and the sample.
\<close>

lemma tick_stale:
  assumes fl: "500 \<le> length (appendBatch inp s)"
    and nn: "\<forall>t\<in>set (appendBatch inp s). 0 \<le> encode (sortBy s) t"
  shows "\<exists>s'. tick inp s = Inr s' \<and>
           radixTime (currentStats s') = snd (radixClock inp) - fst (radixClock inp) \<and>
           mergeTime (currentStats s') = (snd (mergeClock inp) - fst (mergeClock inp)) * (5 / 2) \<and>
           avgSortTime (currentStats s') = (radixTime (currentStats s) + mergeTime (currentStats s)) / 2 \<and>
           map sample_radixTime (performanceData s')
             = map sample_radixTime (sliceLast 20 (performanceData s)) @ [radixTime (currentStats s)] \<and>
           map sample_mergeTime (performanceData s')
             = map sample_mergeTime (sliceLast 20 (performanceData s)) @ [mergeTime (currentStats s)]"
proof -
  obtain out where out: "sortTransactions s inp (appendBatch inp s)
      = Inr (out, snd (radixClock inp) - fst (radixClock inp),
             (snd (mergeClock inp) - fst (mergeClock inp)) * (5 / 2))"
    using tick_flush_nonneg [OF fl nn] by blast
  show ?thesis by (simp add: tick_flush [OF fl out])
qed

lemma sortTransactions_v0_time:
  "sortTransactions s inp data = Inr (out, rTime, mTime) \<Longrightarrow>
   sortTransactions_v0 s inp data
     = Inr (out, rTime, snd (mergeClock inp) - fst (mergeClock inp))"
  by (auto simp: sortTransactions_def sortTransactions_v0_def parallelRadixSort_eq
      mergeSort_def mergeSort_v0_def Let_def split: if_splits sum.splits)

text \<open>The variant writes the durations of the pass itself into the average and the sample.\<close>

lemma tick_v0_current:
  assumes fl: "100 \<le> length (appendBatch inp s)"
    and st: "sortTransactions_v0 s inp (appendBatch inp s) = Inr (out, rTime, mTime)"
  shows "\<exists>s'. tick_v0 inp s = Inr s' \<and>
           radixTime (currentStats s') = rTime \<and> mergeTime (currentStats s') = mTime \<and>
           avgSortTime (currentStats s') = (rTime + mTime) / 2 \<and>
           map sample_radixTime (performanceData s')
             = map sample_radixTime (sliceLast 20 (performanceData s)) @ [rTime] \<and>
           map sample_mergeTime (performanceData s')
             = map sample_mergeTime (sliceLast 20 (performanceData s)) @ [mTime]"
  using fl by (simp add: tick_v0_def Let_def st)

lemma tick_history:
  "tick inp s = Inr s' \<Longrightarrow>
   (length (appendBatch inp s) < 500 \<and> performanceData s' = performanceData s) \<or>
   (500 \<le> length (appendBatch inp s) \<and>
    (\<exists>sample. performanceData s' = sliceLast 20 (performanceData s) @ [sample]))"
  by (auto simp: tick_def Let_def split: if_splits sum.splits prod.splits)

lemma history_le_21: "reachable s \<Longrightarrow> length (performanceData s) \<le> 21"
proof (induction rule: reachable.induct)
  case r_init
  show ?case by (simp add: initialEngine_def)
next
  case (r_tick s inp s')
  then have "tick inp s = Inr s'" by (simp add: onInterval_def split: if_splits)
  then show ?case using tick_history [of inp s s'] r_tick.IH
    by (auto simp: length_sliceLast)
qed (simp_all add: toggleSimulation_def resetData_def)

text \<open>Runs of the busy engine: every tick flushes and appends one sample.\<close>

lemma busy_step:
  assumes "reachable s" "isRunning s" "transactionRate s = 5000" "transactionBuffer s = []"
    "sortBy s = Price"
  shows "\<exists>s'. onInterval busyInput s = Some (Inr s') \<and> reachable s' \<and> isRunning s' \<and>
           transactionRate s' = 5000 \<and> transactionBuffer s' = [] \<and> sortBy s' = Price \<and>
           length (performanceData s') = min 20 (length (performanceData s)) + 1"
proof -
  have fl: "500 \<le> length (appendBatch busyInput s)"
    and nn: "\<forall>t\<in>set (appendBatch busyInput s). 0 \<le> encode (sortBy s) t"
    using busy_batch [OF assms(3,4)] assms(5) by simp_all
  obtain out where out: "sortTransactions s busyInput (appendBatch busyInput s)
      = Inr (out, snd (radixClock busyInput) - fst (radixClock busyInput),
             (snd (mergeClock busyInput) - fst (mergeClock busyInput)) * (5 / 2))"
    using tick_flush_nonneg [OF fl nn] by blast
  let ?s' = "projr (tick busyInput s)"
  have t: "tick busyInput s = Inr ?s'" by (simp add: tick_flush [OF fl out])
  then have o: "onInterval busyInput s = Some (Inr ?s')" using assms(2) by (simp add: onInterval_def)
  have r: "reachable ?s'" using assms(1) o by (rule r_tick)
  have "isRunning ?s' \<and> transactionRate ?s' = 5000 \<and> transactionBuffer ?s' = [] \<and>
        sortBy ?s' = Price \<and>
        length (performanceData ?s') = min 20 (length (performanceData s)) + 1"
    using assms by (simp add: tick_flush [OF fl out] length_sliceLast)
  then show ?thesis using o r by blast
qed

lemma busy_run:
  assumes "reachable s" "isRunning s" "transactionRate s = 5000" "transactionBuffer s = []"
    "sortBy s = Price" "length (performanceData s) \<le> 21"
  shows "\<exists>s'. ticks n busyInput s = Inr s' \<and> reachable s' \<and> isRunning s' \<and>
           transactionRate s' = 5000 \<and> transactionBuffer s' = [] \<and> sortBy s' = Price \<and>
           length (performanceData s') = min 21 (length (performanceData s) + n)"
  using assms
proof (induction n arbitrary: s)
  case 0
  then show ?case by simp
next
  case (Suc n)
  obtain s1 where s1: "onInterval busyInput s = Some (Inr s1)" "reachable s1" "isRunning s1"
      "transactionRate s1 = 5000" "transactionBuffer s1 = []" "sortBy s1 = Price"
      "length (performanceData s1) = min 20 (length (performanceData s)) + 1"
    using busy_step [OF Suc.prems(1-5)] by blast
  have l1: "length (performanceData s1) \<le> 21" using s1(7) by simp
  obtain s' where s': "ticks n busyInput s1 = Inr s'" "reachable s'" "isRunning s'"
      "transactionRate s' = 5000" "transactionBuffer s' = []" "sortBy s' = Price"
      "length (performanceData s') = min 21 (length (performanceData s1) + n)"
    using Suc.IH [OF s1(2-6) l1] by blast
  have "min 21 (length (performanceData s1) + n) = min 21 (length (performanceData s) + Suc n)"
    using s1(7) Suc.prems(6) by simp
  then show ?case using s1(1) s' by simp
qed

lemma reachable_busyEngine: "reachable busyEngine"
proof -
  have "reachable (toggleSimulation initialEngine)" using r_init by (rule r_toggle)
  then have "reachable ((toggleSimulation initialEngine)\<lparr>transactionRate := 5000\<rparr>)"
    by (rule r_rate)
  then show ?thesis by (simp add: busyEngine_def toggleSimulation_def initialEngine_def)
qed

lemma busy_run_21:
  "\<exists>s'. ticks 21 busyInput busyEngine = Inr s' \<and> reachable s' \<and>
     transactionRate s' = 5000 \<and> transactionBuffer s' = [] \<and> sortBy s' = Price \<and>
     length (performanceData s') = 21"
proof -
  have p: "isRunning busyEngine" "transactionRate busyEngine = 5000"
    "transactionBuffer busyEngine = []" "sortBy busyEngine = Price"
    "length (performanceData busyEngine) \<le> 21"
    by (simp_all add: busyEngine_def initialEngine_def)
  have z: "length (performanceData busyEngine) = 0"
    by (simp add: busyEngine_def initialEngine_def)
  obtain s' where s': "ticks 21 busyInput busyEngine = Inr s'" "reachable s'"
      "transactionRate s' = 5000" "transactionBuffer s' = []" "sortBy s' = Price"
      "length (performanceData s') = min 21 (length (performanceData busyEngine) + 21)"
    using busy_run [OF reachable_busyEngine p, of 21] by blast
  have "length (performanceData s') = 21" using s'(6) z by simp
  then show ?thesis using s'(1-5) by blast
qed

text \<open>The tick of the variant: the same two cases, at the threshold of 100.\<close>

lemma tick_v0_below:
  assumes "length (appendBatch inp s) < 100"
  shows "tick_v0 inp s
    = Inr (s\<lparr>currentStats := (currentStats s)
                \<lparr>totalTransactions := totalTransactions (currentStats s) + transactionRate s div 10\<rparr>,
              transactionBuffer := appendBatch inp s\<rparr>)"
  using assms by (simp add: tick_v0_def Let_def)

lemma tick_v0_history:
  "tick_v0 inp s = Inr s' \<Longrightarrow>
   (length (appendBatch inp s) < 100 \<and> performanceData s' = performanceData s) \<or>
   (100 \<le> length (appendBatch inp s) \<and> transactionBuffer s' = [] \<and>
    (\<exists>sample. performanceData s' = sliceLast 20 (performanceData s) @ [sample]))"
  by (auto simp: tick_v0_def Let_def split: if_splits sum.splits prod.splits)

section \<open>Properties of the engine\<close>

subsection \<open>Symbol keys\<close>

text \<open>
  C8. The fold \<open>acc * 256 + code\<close> from 0 never gives a negative key. Over symbols of at most
  six code units, each below 256 (where the fold does not round): two different symbols
  without a code unit 0 have different keys, and for symbols of equal length the order of
  the keys is the lexicographic order of the strings. Every ticker of \<open>stockSymbols\<close> is
  such a symbol without a code unit 0, the keys of the tickers are pairwise different, and
  the key of AAPL is below the key of AAPM.
\<close>

theorem symbol_encoding:
  "0 \<le> symbolKey s \<and>
   ((\<forall>c\<in>set s. c \<noteq> 0 \<and> c < 256) \<and> (\<forall>c\<in>set t. c \<noteq> 0 \<and> c < 256) \<and>
    length s \<le> 6 \<and> length t \<le> 6 \<and> s \<noteq> t \<longrightarrow> symbolKey s \<noteq> symbolKey t) \<and>
   ((\<forall>c\<in>set s. c < 256) \<and> (\<forall>c\<in>set t. c < 256) \<and> length s = length t \<and> length s \<le> 6
      \<longrightarrow> (symbolKey s < symbolKey t \<longleftrightarrow> s < t)) \<and>
   (\<forall>s\<in>set stockSymbols. length s \<le> 6 \<and> (\<forall>c\<in>set s. c \<noteq> 0 \<and> c < 256)) \<and>
   inj_on symbolKey (set stockSymbols) \<and>
   symbolKey (units ''AAPL'') < symbolKey (units ''AAPM'')"
proof -
  have tick: "\<forall>s\<in>set stockSymbols. length s \<le> 6 \<and> (\<forall>c\<in>set s. c \<noteq> 0 \<and> c < 256)"
    by code_simp
  have "distinct (map symbolKey stockSymbols)" by code_simp
  then have inj: "inj_on symbolKey (set stockSymbols)" by (simp add: distinct_map)
  have ex: "symbolKey (units ''AAPL'') < symbolKey (units ''AAPM'')" by code_simp
  have 2: "(\<forall>c\<in>set s. c \<noteq> 0 \<and> c < 256) \<and> (\<forall>c\<in>set t. c \<noteq> 0 \<and> c < 256) \<and>
    length s \<le> 6 \<and> length t \<le> 6 \<and> s \<noteq> t \<longrightarrow> symbolKey s \<noteq> symbolKey t"
    using symbolValue_inj [of s t] symbolKey_exact [of s] symbolKey_exact [of t] by metis
  have 3: "(\<forall>c\<in>set s. c < 256) \<and> (\<forall>c\<in>set t. c < 256) \<and> length s = length t \<and> length s \<le> 6
      \<longrightarrow> (symbolKey s < symbolKey t \<longleftrightarrow> s < t)"
    using symbolValue_less_iff [of s t] symbolKey_exact [of s] symbolKey_exact [of t] by metis
  show ?thesis using symbolKey_nonneg [of s] 2 3 tick inj ex by (intro conjI)
qed

theorem symbol_encoding_witness:
  "symbolKey (units ''NFLX'') \<noteq> symbolKey (units ''NVDA'') \<and>
   symbolKey (units ''NFLX'') < symbolKey (units ''NVDA'') \<and>
   units ''NFLX'' < units ''NVDA''"
proof -
  have h: "\<forall>c\<in>set (units ''NFLX''). c \<noteq> 0 \<and> c < 256" "\<forall>c\<in>set (units ''NVDA''). c \<noteq> 0 \<and> c < 256"
    "length (units ''NFLX'') \<le> 6" "length (units ''NVDA'') \<le> 6"
    "units ''NFLX'' \<noteq> units ''NVDA''" "length (units ''NFLX'') = length (units ''NVDA'')"
    "units ''NFLX'' < units ''NVDA''"
    by code_simp+
  have h': "\<forall>c\<in>set (units ''NFLX''). c < 256" "\<forall>c\<in>set (units ''NVDA''). c < 256"
    using h(1,2) by blast+
  from symbol_encoding [of "units ''NFLX''" "units ''NVDA''"] h h'
  show ?thesis by (elim conjE) (intro conjI; blast)
qed

subsection \<open>Reset\<close>

text \<open>
  C6. Whatever the state was, after \<^verbatim>\<open>resetData\<close> the transaction count is 0, the sample
  history and the buffer are empty, the two last durations and the average are 0, and the
  simulation is not running, so that the timer does not fire.
\<close>

theorem reset_complete:
  "totalTransactions (currentStats (resetData s)) = 0 \<and>
   performanceData (resetData s) = [] \<and>
   transactionBuffer (resetData s) = [] \<and>
   radixTime (currentStats (resetData s)) = 0 \<and>
   mergeTime (currentStats (resetData s)) = 0 \<and>
   avgSortTime (currentStats (resetData s)) = 0 \<and>
   \<not> isRunning (resetData s) \<and>
   onInterval inp (resetData s) = None"
  by (simp add: resetData_def onInterval_def)

subsection \<open>Reported durations\<close>

text \<open>
  With the clock reading 10 before and 12 after the sort, \<^verbatim>\<open>mergeSort\<close> of
  \<^verbatim>\<open>TradeWiz.tsx\<close> reports 5, not the 2 that were measured.
\<close>

theorem mergeSort_time_counterexample:
  "snd (mergeSort (10, 12) scenarioBatch Price) = 5 \<and> (5::rat) \<noteq> 12 - 10"
  by (simp add: mergeSort_def Let_def)

text \<open>
  C3, amended. \<^verbatim>\<open>mergeSort\<close> of \<^verbatim>\<open>TradeWiz.tsx\<close> reports two and a half times the
  difference of the two clock readings taken around the sort; \<^verbatim>\<open>mergeSort\<close> of the variant
  reports that difference itself.
\<close>

theorem mergeSort_time:
  "snd (mergeSort (startTime, endTime) arr k) = (endTime - startTime) * (5 / 2) \<and>
   snd (mergeSort_v0 (startTime, endTime) arr k) = endTime - startTime"
  by (simp add: mergeSort_def mergeSort_v0_def Let_def)

text \<open>
  On a batch of one transaction \<^verbatim>\<open>mergeSort\<close> still reports what the clock measured
  (times 2.5 in \<^verbatim>\<open>TradeWiz.tsx\<close>), which is not 0 when the two readings differ.
\<close>

theorem short_batch_counterexample:
  "length [trade ''a'' ''AAPL'' 100 3] \<le> 1 \<and>
   mergeSort (10, 12) [trade ''a'' ''AAPL'' 100 3] Price = ([trade ''a'' ''AAPL'' 100 3], 5) \<and>
   mergeSort_v0 (10, 12) [] Price = ([], 2)"
  by (simp add: mergeSort_def mergeSort_v0_def Let_def sortRec.simps)

text \<open>
  C7, amended. On an input of length 0 or 1, for every sort field, the radix sorter returns
  the input unchanged with duration exactly 0. The merge sorter returns the input unchanged
  too, and reports the measured difference of its two clock readings (times 2.5 in
  \<^verbatim>\<open>TradeWiz.tsx\<close>).
\<close>

theorem short_batch:
  assumes "length arr \<le> 1"
  shows "radixSort clock arr k = Inr (arr, 0) \<and>
         parallelRadixSort clock arr k = Inr (arr, 0) \<and>
         mergeSort clock arr k = (arr, (snd clock - fst clock) * (5 / 2)) \<and>
         mergeSort_v0 clock arr k = (arr, snd clock - fst clock)"
  using assms
  by (simp add: radixSort_def parallelRadixSort_def mergeSort_def mergeSort_v0_def Let_def
      sortRec.simps [of k arr])

theorem short_batch_witness:
  "radixSort (10, 12) [trade ''b'' ''AMD'' 50 1] Symbol = Inr ([trade ''b'' ''AMD'' 50 1], 0) \<and>
   mergeSort (10, 10) [trade ''b'' ''AMD'' 50 1] Symbol = ([trade ''b'' ''AMD'' 50 1], 0)"
  using short_batch [of "[trade ''b'' ''AMD'' 50 1]" "(10, 12)" Symbol]
    short_batch [of "[trade ''b'' ''AMD'' 50 1]" "(10, 10)" Symbol]
  by simp

subsection \<open>Sorted output\<close>


text \<open>
  Two more inputs on which the radix sorter leaves the field out of order, both from the
  rounding of doubles. On two timestamps of generated size, above \<open>2^53\<close>, the digits taken
  from the rounded quotients put the larger timestamp first. The prices written 64.07 and
  64.06 both get the key 6406, the product of the first being rounded below 6407, and stay
  in the order of the input.
\<close>

lemma radix_timestamps_unsorted:
  "map timestamp (fst (projr (radixSort (10, 12) generatedTimestamps Timestamp)))
     = [1793664184100358400, 1793664184100357888]"
  by code_simp

lemma radix_prices_unsorted:
  "map (encode Price) roundedPrices = [6406, 6406] \<and>
   map tx_id (fst (projr (radixSort (10, 12) roundedPrices Price))) = [''q0'', ''q1'']"
  by code_simp

lemma rounded_prices_order: "rd (6406 / 100) < rd (6407 / 100)"
  by code_simp



subsection \<open>Stability\<close>

text \<open>
  C2. Both sorters are stable. On an input whose keys are not negative, the transactions of
  the radix sorter's output that share an encoded key are, apart from the attached
  \<open>sortKey\<close>, those of the input with that key, in the order of the input; the transactions
  of the merge sorter's output that compare equal on the field are those of the input, in
  the order of the input. In the scenario the keys are 10000, 5000, 10000, the radix sorter
  returns them as 5000, 10000, 10000 with prices 50, 100, 100, and the two entries of price
  100 keep their order: a before c.
\<close>

theorem sorters_stable:
  assumes "\<forall>t\<in>set arr. 0 \<le> encode k t"
  shows "(\<exists>ys d. radixSort clock arr k = Inr (ys, d) \<and>
            (\<forall>c. map core (filter (\<lambda>y. encode k y = c) ys)
                   = map core (filter (\<lambda>x. encode k x = c) arr))) \<and>
         (\<forall>t. filter (\<lambda>x. fieldLe k x t \<and> fieldLe k t x) (fst (mergeSort clock' arr k))
                = filter (\<lambda>x. fieldLe k x t \<and> fieldLe k t x) arr) \<and>
         map keyOf (preprocessForRadix scenarioBatch Price) = [10000, 5000, 10000] \<and>
         map keyOf (fst (projr (radixSort clock'' scenarioBatch Price))) = [5000, 10000, 10000] \<and>
         map price (fst (projr (radixSort clock'' scenarioBatch Price))) = [50, 100, 100] \<and>
         map tx_id (fst (projr (radixSort clock'' scenarioBatch Price))) = [''b'', ''a'', ''c'']"
proof -
  obtain ys d where ys: "radixSort clock arr k = Inr (ys, d)"
      "\<forall>c. map core (filter (\<lambda>y. encode k y = c) ys)
            = map core (filter (\<lambda>x. encode k x = c) arr)"
    using radixSort_nonneg [OF assms, of clock] by blast
  have 1: "\<exists>ys d. radixSort clock arr k = Inr (ys, d) \<and>
            (\<forall>c. map core (filter (\<lambda>y. encode k y = c) ys)
                   = map core (filter (\<lambda>x. encode k x = c) arr))"
    using ys by blast
  have 2: "\<forall>t. filter (\<lambda>x. fieldLe k x t \<and> fieldLe k t x) (fst (mergeSort clock' arr k))
                = filter (\<lambda>x. fieldLe k x t \<and> fieldLe k t x) arr"
    by (simp add: fst_mergeSort stable_sortRec)
  have 3: "map keyOf (preprocessForRadix scenarioBatch Price) = [10000, 5000, 10000]"
    by code_simp
  have loop: "radixLoop 0 5 (preprocessForRadix scenarioBatch Price)
      = Inr [(trade ''b'' ''AMD'' 50 1)\<lparr>sortKey := Some 5000\<rparr>,
             (trade ''a'' ''AAPL'' 100 3)\<lparr>sortKey := Some 10000\<rparr>,
             (trade ''c'' ''TSLA'' 100 2)\<lparr>sortKey := Some 10000\<rparr>]"
    by code_simp
  have len: "\<not> length scenarioBatch \<le> 1" by (simp add: scenarioBatch_def)
  have mx: "fold max (tl (map keyOf (preprocessForRadix scenarioBatch Price)))
                (hd (map keyOf (preprocessForRadix scenarioBatch Price))) = 10000"
    by (simp add: 3)
  have dg: "toStringLength 10000 = 5" by code_simp
  have r: "radixSort clock'' scenarioBatch Price
      = Inr ([(trade ''b'' ''AMD'' 50 1)\<lparr>sortKey := Some 5000\<rparr>,
              (trade ''a'' ''AAPL'' 100 3)\<lparr>sortKey := Some 10000\<rparr>,
              (trade ''c'' ''TSLA'' 100 2)\<lparr>sortKey := Some 10000\<rparr>], snd clock'' - fst clock'')"
    using len by (simp add: radixSort_def Let_def mx dg loop)
  have 4: "map keyOf (fst (projr (radixSort clock'' scenarioBatch Price))) = [5000, 10000, 10000]"
    "map price (fst (projr (radixSort clock'' scenarioBatch Price))) = [50, 100, 100]"
    "map tx_id (fst (projr (radixSort clock'' scenarioBatch Price))) = [''b'', ''a'', ''c'']"
    by (simp_all add: r keyOf_def trade_def)
  show ?thesis using 1 2 3 4 by blast
qed

theorem sorters_stable_witness:
  "(\<exists>ys d. radixSort (10, 12) scenarioBatch Price = Inr (ys, d) \<and>
      map tx_id (filter (\<lambda>y. encode Price y = 10000) ys) = [''a'', ''c'']) \<and>
   map tx_id (filter (\<lambda>x. fieldLe Price x (trade ''a'' ''AAPL'' 100 3) \<and>
                         fieldLe Price (trade ''a'' ''AAPL'' 100 3) x)
                (fst (mergeSort (10, 12) scenarioBatch Price))) = [''a'', ''c'']"
proof -
  have nn: "\<forall>t\<in>set scenarioBatch. 0 \<le> encode Price t"
    by (simp add: scenarioBatch_def trade_def encode_def)
  have f1: "map core (filter (\<lambda>x. encode Price x = 10000) scenarioBatch)
      = [core (trade ''a'' ''AAPL'' 100 3), core (trade ''c'' ''TSLA'' 100 2)]"
    by (simp add: scenarioBatch_def trade_def encode_def)
  have f2: "filter (\<lambda>x. fieldLe Price x (trade ''a'' ''AAPL'' 100 3) \<and>
                         fieldLe Price (trade ''a'' ''AAPL'' 100 3) x) scenarioBatch
      = [trade ''a'' ''AAPL'' 100 3, trade ''c'' ''TSLA'' 100 2]"
    by (simp add: scenarioBatch_def trade_def fieldLe_def)
  have ids: "map tx_id zs = map (\<lambda>t. fst (core t)) zs" for zs
    by (simp add: core_def)
  from sorters_stable [OF nn, of "(10, 12)" "(10, 12)"]
  obtain ys d where ys: "radixSort (10, 12) scenarioBatch Price = Inr (ys, d)"
      "\<forall>c. map core (filter (\<lambda>y. encode Price y = c) ys)
            = map core (filter (\<lambda>x. encode Price x = c) scenarioBatch)"
    and m: "\<forall>t. filter (\<lambda>x. fieldLe Price x t \<and> fieldLe Price t x)
                  (fst (mergeSort (10, 12) scenarioBatch Price))
                = filter (\<lambda>x. fieldLe Price x t \<and> fieldLe Price t x) scenarioBatch"
    by blast
  have "map core (filter (\<lambda>y. encode Price y = 10000) ys)
      = [core (trade ''a'' ''AAPL'' 100 3), core (trade ''c'' ''TSLA'' 100 2)]"
    using ys(2) f1 by simp
  then have "map fst (map core (filter (\<lambda>y. encode Price y = 10000) ys)) = [''a'', ''c'']"
    by (simp add: core_def trade_def)
  then have a: "map tx_id (filter (\<lambda>y. encode Price y = 10000) ys) = [''a'', ''c'']"
    by (simp add: ids o_def)
  have b: "map tx_id (filter (\<lambda>x. fieldLe Price x (trade ''a'' ''AAPL'' 100 3) \<and>
                         fieldLe Price (trade ''a'' ''AAPL'' 100 3) x)
                (fst (mergeSort (10, 12) scenarioBatch Price))) = [''a'', ''c'']"
    using m f2 by (simp add: trade_def)
  show ?thesis by (intro conjI exI [of _ ys] exI [of _ d]) (rule ys(1) a b)+
qed

subsection \<open>Threshold behaviour of the tick\<close>

text \<open>
  C5. On a tick after which the buffer, with the new batch appended, is still below the
  flush threshold of 500, the last radix and merge durations, the average, the sample
  history and the sorted output are unchanged, the transaction count grows by the batch size
  and the buffer holds the batch. On a tick where the buffer reaches the threshold (and no
  key is negative), one pass runs over the whole buffer: \<^verbatim>\<open>radixSort\<close> and \<^verbatim>\<open>mergeSort\<close> are
  applied to it, the list of the selected one is what \<^verbatim>\<open>sortTransactions\<close> returns and what
  becomes the sorted output (its last 500 items), the durations they report, measured on
  the tick's clock readings, are what \<^verbatim>\<open>sortTransactions\<close> returns and what become the last
  durations, exactly one sample, of the buffer's size, is appended, and the buffer is empty
  afterwards.
\<close>

theorem threshold_behaviour:
  "(length (appendBatch inp s) < 500 \<longrightarrow>
      (\<exists>s'. tick inp s = Inr s' \<and>
         radixTime (currentStats s') = radixTime (currentStats s) \<and>
         mergeTime (currentStats s') = mergeTime (currentStats s) \<and>
         avgSortTime (currentStats s') = avgSortTime (currentStats s) \<and>
         performanceData s' = performanceData s \<and>
         sortedTransactions s' = sortedTransactions s \<and>
         totalTransactions (currentStats s')
           = totalTransactions (currentStats s) + transactionRate s div 10 \<and>
         transactionBuffer s' = appendBatch inp s)) \<and>
   (500 \<le> length (appendBatch inp s) \<and>
    (\<forall>t\<in>set (appendBatch inp s). 0 \<le> encode (sortBy s) t) \<longrightarrow>
      (\<exists>s' ys out rTime mTime sample.
         radixSort (radixClock inp) (appendBatch inp s) (sortBy s) = Inr (ys, rTime) \<and>
         rTime = snd (radixClock inp) - fst (radixClock inp) \<and>
         mTime = snd (mergeSort (mergeClock inp) (appendBatch inp s) (sortBy s)) \<and>
         mTime = (snd (mergeClock inp) - fst (mergeClock inp)) * (5 / 2) \<and>
         out = (if sortMethod s = Radix then ys
                else fst (mergeSort (mergeClock inp) (appendBatch inp s) (sortBy s))) \<and>
         sortTransactions s inp (appendBatch inp s) = Inr (out, rTime, mTime) \<and>
         tick inp s = Inr s' \<and>
         sortedTransactions s' = sliceLast 500 out \<and>
         radixTime (currentStats s') = rTime \<and>
         mergeTime (currentStats s') = mTime \<and>
         performanceData s' = sliceLast 20 (performanceData s) @ [sample] \<and>
         transactions sample = length (appendBatch inp s) \<and>
         transactionBuffer s' = []))"
proof (intro conjI impI)
  assume "length (appendBatch inp s) < 500"
  then show "\<exists>s'. tick inp s = Inr s' \<and>
         radixTime (currentStats s') = radixTime (currentStats s) \<and>
         mergeTime (currentStats s') = mergeTime (currentStats s) \<and>
         avgSortTime (currentStats s') = avgSortTime (currentStats s) \<and>
         performanceData s' = performanceData s \<and>
         sortedTransactions s' = sortedTransactions s \<and>
         totalTransactions (currentStats s')
           = totalTransactions (currentStats s) + transactionRate s div 10 \<and>
         transactionBuffer s' = appendBatch inp s"
    by (simp add: tick_below)
next
  let ?B = "appendBatch inp s"
  let ?r = "snd (radixClock inp) - fst (radixClock inp)"
  let ?m = "(snd (mergeClock inp) - fst (mergeClock inp)) * (5 / 2)"
  assume h: "500 \<le> length ?B \<and> (\<forall>t\<in>set ?B. 0 \<le> encode (sortBy s) t)"
  then have fl: "500 \<le> length ?B" and nn: "\<forall>t\<in>set ?B. 0 \<le> encode (sortBy s) t"
    by simp_all
  have len: "\<not> length ?B \<le> 1" using fl by simp
  obtain ys where ys: "radixSort (radixClock inp) ?B (sortBy s) = Inr (ys, ?r)"
      "sortTransactions s inp ?B
         = Inr (if sortMethod s = Radix then ys else sortRec (sortBy s) ?B, ?r, ?m)"
    using sortTransactions_nonneg [OF nn, of inp] len by auto
  let ?out = "if sortMethod s = Radix then ys else fst (mergeSort (mergeClock inp) ?B (sortBy s))"
  have st: "sortTransactions s inp ?B = Inr (?out, ?r, ?m)"
    using ys(2) by (simp add: fst_mergeSort)
  have mt: "?m = snd (mergeSort (mergeClock inp) ?B (sortBy s))"
    by (simp add: mergeSort_def Let_def)
  let ?sample = "\<lparr>time = now inp,
                  sample_radixTime = radixTime (currentStats s),
                  sample_mergeTime = mergeTime (currentStats s),
                  transactions = length ?B,
                  sample_totalTransactions = totalTransactions (currentStats s) + length ?B\<rparr>"
  let ?s' = "s\<lparr>sortedTransactions := sliceLast 500 ?out,
              performanceData := sliceLast 20 (performanceData s) @ [?sample],
              currentStats :=
                \<lparr>totalTransactions = totalTransactions (currentStats s) + length ?B,
                 avgSortTime = (radixTime (currentStats s) + mergeTime (currentStats s)) / 2,
                 radixTime = ?r, mergeTime = ?m\<rparr>,
              transactionBuffer := []\<rparr>"
  have t: "tick inp s = Inr ?s'" using fl st by (rule tick_flush)
  have "radixSort (radixClock inp) ?B (sortBy s) = Inr (ys, ?r) \<and>
         ?r = snd (radixClock inp) - fst (radixClock inp) \<and>
         ?m = snd (mergeSort (mergeClock inp) ?B (sortBy s)) \<and>
         ?m = (snd (mergeClock inp) - fst (mergeClock inp)) * (5 / 2) \<and>
         ?out = (if sortMethod s = Radix then ys
                else fst (mergeSort (mergeClock inp) ?B (sortBy s))) \<and>
         sortTransactions s inp ?B = Inr (?out, ?r, ?m) \<and>
         tick inp s = Inr ?s' \<and>
         sortedTransactions ?s' = sliceLast 500 ?out \<and>
         radixTime (currentStats ?s') = ?r \<and>
         mergeTime (currentStats ?s') = ?m \<and>
         performanceData ?s' = sliceLast 20 (performanceData s) @ [?sample] \<and>
         transactions ?sample = length ?B \<and>
         transactionBuffer ?s' = []"
    using ys(1) mt st t by simp
  then show "\<exists>s' ys out rTime mTime sample.
         radixSort (radixClock inp) ?B (sortBy s) = Inr (ys, rTime) \<and>
         rTime = snd (radixClock inp) - fst (radixClock inp) \<and>
         mTime = snd (mergeSort (mergeClock inp) ?B (sortBy s)) \<and>
         mTime = (snd (mergeClock inp) - fst (mergeClock inp)) * (5 / 2) \<and>
         out = (if sortMethod s = Radix then ys
                else fst (mergeSort (mergeClock inp) ?B (sortBy s))) \<and>
         sortTransactions s inp ?B = Inr (out, rTime, mTime) \<and>
         tick inp s = Inr s' \<and>
         sortedTransactions s' = sliceLast 500 out \<and>
         radixTime (currentStats s') = rTime \<and>
         mergeTime (currentStats s') = mTime \<and>
         performanceData s' = sliceLast 20 (performanceData s) @ [sample] \<and>
         transactions sample = length ?B \<and>
         transactionBuffer s' = []"
    by blast
qed

theorem threshold_behaviour_witness:
  "(\<exists>s'. tick busyInput calmEngine = Inr s' \<and>
      totalTransactions (currentStats s') = 100 \<and>
      performanceData s' = [] \<and> sortedTransactions s' = [] \<and>
      length (transactionBuffer s') = 100) \<and>
   (\<exists>s'. tick busyInput busyEngine = Inr s' \<and>
      length (performanceData s') = 1 \<and> transactionBuffer s' = [])"
proof -
  have c: "length (appendBatch busyInput calmEngine) = 100"
    by (simp add: appendBatch_def calmEngine_def initialEngine_def)
  have b: "length (appendBatch busyInput busyEngine) = 500"
    "\<forall>t\<in>set (appendBatch busyInput busyEngine). 0 \<le> encode (sortBy busyEngine) t"
    using busy_batch [of busyEngine] by (simp_all add: busyEngine_def initialEngine_def)
  have 1: "\<exists>s'. tick busyInput calmEngine = Inr s' \<and>
      totalTransactions (currentStats s') = 100 \<and>
      performanceData s' = [] \<and> sortedTransactions s' = [] \<and>
      length (transactionBuffer s') = 100"
    using threshold_behaviour [of busyInput calmEngine] c
    by (auto simp: calmEngine_def initialEngine_def zeroStats_def)
  have 2: "\<exists>s'. tick busyInput busyEngine = Inr s' \<and>
      length (performanceData s') = 1 \<and> transactionBuffer s' = []"
    using threshold_behaviour [of busyInput busyEngine] b
    by (auto simp: busyEngine_def initialEngine_def sliceLast_def)
  show ?thesis using 1 2 by (rule conjI)
qed

subsection \<open>Durations recorded by a sort pass\<close>

text \<open>
  C4 fails in \<^verbatim>\<open>TradeWiz.tsx\<close>. The first flushing tick of the busy engine measures 3 for the
  radix sort and reports 5 for the merge sort, and stores both; but the average it stores is
  0 and the sample it appends records 0 and 0: the durations rendered before the tick, read
  through the callback's closure, not those of the pass.
\<close>

theorem stale_durations_recorded:
  "\<exists>s'. tick busyInput busyEngine = Inr s' \<and>
     radixTime (currentStats s') = 3 \<and>
     mergeTime (currentStats s') = 5 \<and>
     avgSortTime (currentStats s') = 0 \<and>
     map sample_radixTime (performanceData s') = [0] \<and>
     map sample_mergeTime (performanceData s') = [0]"
proof -
  have b: "500 \<le> length (appendBatch busyInput busyEngine)"
    "\<forall>t\<in>set (appendBatch busyInput busyEngine). 0 \<le> encode (sortBy busyEngine) t"
    using busy_batch [of busyEngine] by (simp_all add: busyEngine_def initialEngine_def)
  show ?thesis
    using tick_stale [OF b]
    by (simp add: busyEngine_def busyInput_def initialEngine_def zeroStats_def sliceLast_def)
qed

subsection \<open>The surfaced output\<close>

text \<open>
  With the radix method selected, the list that \<^verbatim>\<open>sortTransactions\<close> returns, which the tick
  stores as sorted output, carries the sort keys 5000 and 10000; the input carried none.
\<close>

theorem sortKey_retained_counterexample:
  "map sortKey (fst (projr (sortTransactions initialEngine busyInput mixedSymbols)))
     = [Some 5000, Some 10000] \<and>
   map tx_id (fst (projr (sortTransactions initialEngine busyInput mixedSymbols))) = [''b'', ''a''] \<and>
   map sortKey mixedSymbols = [None, None]"
  by code_simp

text \<open>
  C9, amended. After a flushing tick (no key negative) the sorted output holds 500
  transactions, each of them a transaction of the buffer: unchanged when the merge method is
  selected, and with \<open>sortKey\<close> set to its encoded key, all other fields unchanged, when the
  radix method is selected. The key is not discarded after the pass.
\<close>

theorem surfaced_output:
  assumes "500 \<le> length (appendBatch inp s)"
    and "\<forall>t\<in>set (appendBatch inp s). 0 \<le> encode (sortBy s) t"
  shows "\<exists>s'. tick inp s = Inr s' \<and>
           length (sortedTransactions s') = 500 \<and>
           (\<forall>y\<in>set (sortedTransactions s'). \<exists>x\<in>set (appendBatch inp s).
              y = (if sortMethod s = Radix then x\<lparr>sortKey := Some (encode (sortBy s) x)\<rparr> else x))"
proof -
  obtain out where out: "sortTransactions s inp (appendBatch inp s)
      = Inr (out, snd (radixClock inp) - fst (radixClock inp),
             (snd (mergeClock inp) - fst (mergeClock inp)) * (5 / 2))"
      "length out = length (appendBatch inp s)"
      "\<forall>y\<in>set out. \<exists>x\<in>set (appendBatch inp s).
         y = (if sortMethod s = Radix then x\<lparr>sortKey := Some (encode (sortBy s) x)\<rparr> else x)"
    using tick_flush_nonneg [OF assms] by blast
  have "length (sliceLast 500 out) = 500" using out(2) assms(1) by (simp add: length_sliceLast)
  moreover have "\<forall>y\<in>set (sliceLast 500 out). \<exists>x\<in>set (appendBatch inp s).
         y = (if sortMethod s = Radix then x\<lparr>sortKey := Some (encode (sortBy s) x)\<rparr> else x)"
    using out(3) set_sliceLast [of 500 out] by blast
  ultimately show ?thesis by (simp add: tick_flush [OF assms(1) out(1)])
qed

theorem surfaced_output_witness:
  "\<exists>s'. tick busyInput busyEngine = Inr s' \<and>
     length (sortedTransactions s') = 500 \<and>
     map sortKey (sortedTransactions s') = replicate 500 (Some 10000)"
proof -
  have b: "500 \<le> length (appendBatch busyInput busyEngine)"
    "\<forall>t\<in>set (appendBatch busyInput busyEngine). 0 \<le> encode (sortBy busyEngine) t"
    using busy_batch [of busyEngine] by (simp_all add: busyEngine_def initialEngine_def)
  have k: "\<forall>x\<in>set (appendBatch busyInput busyEngine). encode Price x = 10000"
    by (auto simp: appendBatch_def busyInput_def busyEngine_def initialEngine_def trade_def
        encode_def)
  obtain s' where s': "tick busyInput busyEngine = Inr s'" "length (sortedTransactions s') = 500"
      "\<forall>y\<in>set (sortedTransactions s'). \<exists>x\<in>set (appendBatch busyInput busyEngine).
         y = (if sortMethod busyEngine = Radix
              then x\<lparr>sortKey := Some (encode (sortBy busyEngine) x)\<rparr> else x)"
    using surfaced_output [OF b] by blast
  have "\<forall>y\<in>set (sortedTransactions s'). sortKey y = Some 10000"
    using s'(3) k by (auto simp: busyEngine_def initialEngine_def)
  then have "map sortKey (sortedTransactions s') = replicate (length (sortedTransactions s')) (Some 10000)"
    by (simp add: map_replicate_const [symmetric] cong: map_cong)
  then show ?thesis using s'(1,2) by simp
qed

subsection \<open>The sample history\<close>

text \<open>
  After 21 flushing ticks the busy engine, a reachable state, holds 21 samples.
\<close>

theorem history_21_counterexample:
  "reachable (projr (ticks 21 busyInput busyEngine)) \<and>
   length (performanceData (projr (ticks 21 busyInput busyEngine))) = 21 \<and>
   \<not> length (performanceData (projr (ticks 21 busyInput busyEngine))) \<le> 20"
proof -
  obtain s' where "ticks 21 busyInput busyEngine = Inr s'" "reachable s'"
      "length (performanceData s') = 21"
    using busy_run_21 by blast
  then show ?thesis by simp
qed

text \<open>
  C10, amended. In every reachable state the sample history holds at most 21 samples: a
  flushing tick keeps the last 20 and appends one. On a history of 21 samples it drops the
  oldest, so that the history stays at 21.
\<close>

theorem history_bound:
  "(reachable s \<longrightarrow> length (performanceData s) \<le> 21) \<and>
   (500 \<le> length (appendBatch inp s) \<and> tick inp s = Inr s' \<longrightarrow>
      (\<exists>sample. performanceData s' = sliceLast 20 (performanceData s) @ [sample]) \<and>
      (length (performanceData s) = 21 \<longrightarrow>
         length (performanceData s') = 21 \<and>
         butlast (performanceData s') = tl (performanceData s)))"
proof (intro conjI impI)
  assume "reachable s"
  then show "length (performanceData s) \<le> 21" by (rule history_le_21)
next
  assume h: "500 \<le> length (appendBatch inp s) \<and> tick inp s = Inr s'"
  then show e: "\<exists>sample. performanceData s' = sliceLast 20 (performanceData s) @ [sample]"
    using tick_history [of inp s s'] by auto
  assume l: "length (performanceData s) = 21"
  then have "sliceLast 20 (performanceData s) = tl (performanceData s)"
    by (simp add: sliceLast_def drop_Suc)
  then show "length (performanceData s') = 21" "butlast (performanceData s') = tl (performanceData s)"
    using e l by auto
qed

theorem history_bound_witness:
  "\<exists>s s'. ticks 21 busyInput busyEngine = Inr s \<and> tick busyInput s = Inr s' \<and>
     length (performanceData s) = 21 \<and> length (performanceData s') = 21 \<and>
     butlast (performanceData s') = tl (performanceData s)"
proof -
  obtain s where s: "ticks 21 busyInput busyEngine = Inr s" "reachable s"
      "transactionRate s = 5000" "transactionBuffer s = []" "sortBy s = Price"
      "length (performanceData s) = 21"
    using busy_run_21 by blast
  have fl: "500 \<le> length (appendBatch busyInput s)"
    and nn: "\<forall>t\<in>set (appendBatch busyInput s). 0 \<le> encode (sortBy s) t"
    using busy_batch [OF s(3,4)] s(5) by simp_all
  obtain out where out: "sortTransactions s busyInput (appendBatch busyInput s)
      = Inr (out, snd (radixClock busyInput) - fst (radixClock busyInput),
             (snd (mergeClock busyInput) - fst (mergeClock busyInput)) * (5 / 2))"
    using tick_flush_nonneg [OF fl nn] by blast
  obtain s' where s': "tick busyInput s = Inr s'" by (simp add: tick_flush [OF fl out])
  have "length (performanceData s) \<le> 21 \<and> length (performanceData s') = 21 \<and>
      butlast (performanceData s') = tl (performanceData s)"
    using history_bound [of s busyInput s'] s(2,6) fl s' by blast
  then show ?thesis using s(1,6) s' by blast
qed

end
